theory Spec2Isabelle
  imports Main "HOL-Library.Word" "HOL-Library.Monad_Syntax"
begin

unbundle bit_operations_syntax

section \<open>Stage 2 of simdjson: the structural parser\<close>

text \<open>
  A shallow embedding of \<^verbatim>\<open>src/generic/stage2/structural_parser.h\<close>, in the build
  without computed goto (continuation addresses are the small integers 0, 1 and 2 and
  \<^verbatim>\<open>CONTINUE\<close> is a \<^verbatim>\<open>switch\<close>).

  The C++ objects \<^verbatim>\<open>dom_parser_implementation\<close>, \<^verbatim>\<open>dom::document\<close> and
  \<^verbatim>\<open>structural_parser\<close> are flattened into one record. Every buffer is a list of its
  capacity; pointers into a buffer are offsets. An access outside a buffer is undefined
  behaviour in C++: here it is the result \<open>None\<close>, so every function that touches memory
  returns an \<open>option\<close>.
\<close>

subsection \<open>Data model\<close>

datatype error_code =
  SUCCESS | UNINITIALIZED | EMPTY | STRING_ERROR | NUMBER_ERROR
  | T_ATOM_ERROR | F_ATOM_ERROR | N_ATOM_ERROR | DEPTH_ERROR | TAPE_ERROR

datatype tape_type =
  ROOT | START_OBJECT | END_OBJECT | START_ARRAY | END_ARRAY | STRING
  | INT64 | UINT64 | DOUBLE | TRUE_VALUE | FALSE_VALUE | NULL_VALUE

text \<open>One entry of \<^verbatim>\<open>parser.containing_scope\<close>.\<close>

record scope_descriptor =
  tape_index :: "32 word"
  count :: "32 word"

text \<open>
  The collaborators whose code is outside this file are parameters of the model:
  the numeric value of each tape tag, the string decoder
  (\<^verbatim>\<open>stringparsing::parse_string\<close>), the number parser
  (\<^verbatim>\<open>numberparsing::parse_number\<close>), the atom validators, \<^verbatim>\<open>malloc\<close> and the
  constant \<^verbatim>\<open>SIMDJSON_PADDING\<close>.

  The decoder is given the input buffer and the offset of the opening quote; it answers
  with the bytes it stored from \<^verbatim>\<open>dst\<close> on, and whether it succeeded (a null
  pointer is \<open>False\<close>; on success the pointer returned is \<^verbatim>\<open>dst\<close> plus the number
  of bytes stored). The number parser is given a buffer and an offset and answers with
  the tape words it appended and whether it succeeded.
\<close>

record externals =
  tag_code :: "tape_type \<Rightarrow> 8 word"
  string_decoder :: "8 word list \<Rightarrow> nat \<Rightarrow> 8 word list \<times> bool"
  number_parser :: "8 word list \<Rightarrow> nat \<Rightarrow> 64 word list \<times> bool"
  is_valid_true_atom :: "8 word list \<Rightarrow> nat \<Rightarrow> bool"
  is_valid_false_atom :: "8 word list \<Rightarrow> nat \<Rightarrow> bool"
  is_valid_null_atom :: "8 word list \<Rightarrow> nat \<Rightarrow> bool"
  is_valid_true_atom_len :: "8 word list \<Rightarrow> nat \<Rightarrow> 64 word \<Rightarrow> bool"
  is_valid_false_atom_len :: "8 word list \<Rightarrow> nat \<Rightarrow> 64 word \<Rightarrow> bool"
  is_valid_null_atom_len :: "8 word list \<Rightarrow> nat \<Rightarrow> 64 word \<Rightarrow> bool"
  malloc_succeeds :: "nat \<Rightarrow> bool"
  SIMDJSON_PADDING :: nat

text \<open>
  The parser state. The first group of fields belongs to the
  \<^verbatim>\<open>dom_parser_implementation\<close>, the second to the document, the third to the
  \<^verbatim>\<open>structural_parser\<close> (and its base \<^verbatim>\<open>structural_iterator\<close>).
  \<open>current_structural\<close> is the pointer of that name as an offset into
  \<open>structural_indexes\<close>, \<open>next_tape_loc\<close> an offset into \<open>tape\<close>,
  \<open>current_string_buf_loc\<close> an offset into \<open>string_buf\<close>.
\<close>

record parser_state =
  buf :: "8 word list"
  len :: nat
  structural_indexes :: "32 word list"
  n_structural_indexes :: "32 word"
  next_structural_index :: "32 word"
  containing_scope :: "scope_descriptor list"
  ret_address :: "8 word list"
  max_depth :: nat
  error :: error_code
  tape :: "64 word list"
  string_buf :: "8 word list"
  current_structural :: nat
  next_tape_loc :: nat
  current_string_buf_loc :: nat
  depth :: "32 word"

subsection \<open>Memory accesses\<close>

definition rd :: "'a list \<Rightarrow> nat \<Rightarrow> 'a option" where
  "rd xs i = (if i < length xs then Some (xs ! i) else None)"

definition wr :: "'a list \<Rightarrow> nat \<Rightarrow> 'a \<Rightarrow> 'a list option" where
  "wr xs i v = (if i < length xs then Some (xs[i := v]) else None)"

definition modify :: "'a list \<Rightarrow> nat \<Rightarrow> ('a \<Rightarrow> 'a) \<Rightarrow> 'a list option" where
  "modify xs i f = (if i < length xs then Some (xs[i := f (xs ! i)]) else None)"

text \<open>Storing a run of elements from offset \<open>i\<close> on.\<close>

definition wr_seq :: "'a list \<Rightarrow> nat \<Rightarrow> 'a list \<Rightarrow> 'a list option" where
  "wr_seq xs i vs =
     (if i + length vs \<le> length xs then Some (take i xs @ vs @ drop (i + length vs) xs)
      else None)"

subsection \<open>The tape writer\<close>

text \<open>
  Modelled from the spec: \<^verbatim>\<open>generic/stage2/tape_writer.h\<close> is not part of the
  sources at hand. \<open>append(payload56, tag)\<close> writes one word
  \<open>(tag << 56) | (payload56 & 0x00FFFFFFFFFFFFFF)\<close> and advances the cursor;
  \<open>skip()\<close> reserves one word without writing; the back-patch overwrites the word at
  a slot with a word composed the same way.
\<close>

definition tape_word :: "externals \<Rightarrow> 64 word \<Rightarrow> tape_type \<Rightarrow> 64 word" where
  "tape_word ext val t = push_bit 56 (ucast (tag_code ext t)) OR (val AND 0x00FFFFFFFFFFFFFF)"

definition tape_append :: "externals \<Rightarrow> 64 word \<Rightarrow> tape_type \<Rightarrow> parser_state \<Rightarrow> parser_state option" where
  "tape_append ext val t s = do {
     tp \<leftarrow> wr (tape s) (next_tape_loc s) (tape_word ext val t);
     Some (s\<lparr>tape := tp, next_tape_loc := next_tape_loc s + 1\<rparr>)
   }"

definition tape_skip :: "parser_state \<Rightarrow> parser_state" where
  "tape_skip s = s\<lparr>next_tape_loc := next_tape_loc s + 1\<rparr>"

definition tape_write :: "externals \<Rightarrow> nat \<Rightarrow> 64 word \<Rightarrow> tape_type \<Rightarrow> parser_state \<Rightarrow> parser_state option" where
  "tape_write ext i val t s = do {
     tp \<leftarrow> wr (tape s) i (tape_word ext val t);
     Some (s\<lparr>tape := tp\<rparr>)
   }"

text \<open>What the number parser appended: raw words stored at the cursor.\<close>

definition tape_append_raw :: "64 word list \<Rightarrow> parser_state \<Rightarrow> parser_state option" where
  "tape_append_raw ws s = do {
     tp \<leftarrow> wr_seq (tape s) (next_tape_loc s) ws;
     Some (s\<lparr>tape := tp, next_tape_loc := next_tape_loc s + length ws\<rparr>)
   }"

subsection \<open>The structural iterator\<close>

text \<open>
  Modelled from the spec: \<^verbatim>\<open>generic/stage2/structural_iterator.h\<close> is not part of
  the sources at hand. \<open>current_byte()\<close> is the byte at the current structural offset;
  \<open>advance()\<close> moves to the next structural index and returns the new current byte;
  \<open>peek()\<close> is the byte at the next structural index, without advancing;
  \<open>remaining()\<close> is the number of bytes from the current position to the end of the
  buffer (a \<^verbatim>\<open>size_t\<close> difference, taken here at 64 bits); \<open>at_end(n)\<close> is true if
  the cursor is at or past index \<open>n\<close>.
\<close>

definition current :: "parser_state \<Rightarrow> nat option" where
  "current s = map_option unat (rd (structural_indexes s) (current_structural s))"

definition current_char :: "parser_state \<Rightarrow> 8 word option" where
  "current_char s = do { i \<leftarrow> current s; rd (buf s) i }"

definition peek_next_char :: "parser_state \<Rightarrow> 8 word option" where
  "peek_next_char s = do {
     i \<leftarrow> rd (structural_indexes s) (current_structural s + 1);
     rd (buf s) (unat i)
   }"

definition advance_char :: "parser_state \<Rightarrow> (8 word \<times> parser_state) option" where
  "advance_char s = do {
     let s' = s\<lparr>current_structural := current_structural s + 1\<rparr>;
     c \<leftarrow> current_char s';
     Some (c, s')
   }"

definition remaining_len :: "parser_state \<Rightarrow> 64 word option" where
  "remaining_len s = do { i \<leftarrow> current s; Some (of_nat (len s) - of_nat i) }"

definition at_end :: "parser_state \<Rightarrow> 32 word \<Rightarrow> bool" where
  "at_end s n = (unat n \<le> current_structural s)"

subsection \<open>Scopes\<close>

definition next_tape_index :: "parser_state \<Rightarrow> 32 word" where
  "next_tape_index s = of_nat (next_tape_loc s)"

definition start_scope :: "8 word \<Rightarrow> parser_state \<Rightarrow> (bool \<times> parser_state) option" where
  "start_scope continue_state s = do {
     cs1 \<leftarrow> modify (containing_scope s) (unat (depth s)) (\<lambda>d. d\<lparr>tape_index := next_tape_index s\<rparr>);
     cs2 \<leftarrow> modify cs1 (unat (depth s)) (\<lambda>d. d\<lparr>count := 0\<rparr>);
     let s1 = tape_skip (s\<lparr>containing_scope := cs2\<rparr>);
     ra \<leftarrow> wr (ret_address s1) (unat (depth s1)) continue_state;
     let s2 = s1\<lparr>ret_address := ra, depth := depth s1 + 1\<rparr>;
     let exceeded_max_depth = (max_depth s2 \<le> unat (depth s2));
     Some (exceeded_max_depth, s2)
   }"

definition start_document :: "8 word \<Rightarrow> parser_state \<Rightarrow> (bool \<times> parser_state) option" where
  "start_document continue_state s = start_scope continue_state s"

definition start_object :: "8 word \<Rightarrow> parser_state \<Rightarrow> (bool \<times> parser_state) option" where
  "start_object continue_state s = start_scope continue_state s"

definition start_array :: "8 word \<Rightarrow> parser_state \<Rightarrow> (bool \<times> parser_state) option" where
  "start_array continue_state s = start_scope continue_state s"

definition end_scope :: "externals \<Rightarrow> tape_type \<Rightarrow> tape_type \<Rightarrow> parser_state \<Rightarrow> parser_state option" where
  "end_scope ext start end s = do {
     let s1 = s\<lparr>depth := depth s - 1\<rparr>;
     sc \<leftarrow> rd (containing_scope s1) (unat (depth s1));
     s2 \<leftarrow> tape_append ext (ucast (tape_index sc)) end s1;
     let start_tape_index = tape_index sc;
     let cnt = count sc;
     let cntsat = (if cnt > 0xFFFFFF then 0xFFFFFF else cnt);
     tape_write ext (unat start_tape_index)
       (ucast (next_tape_index s2) OR push_bit 32 (ucast cntsat)) start s2
   }"

definition end_object :: "externals \<Rightarrow> parser_state \<Rightarrow> parser_state option" where
  "end_object ext s = end_scope ext START_OBJECT END_OBJECT s"

definition end_array :: "externals \<Rightarrow> parser_state \<Rightarrow> parser_state option" where
  "end_array ext s = end_scope ext START_ARRAY END_ARRAY s"

definition end_document :: "externals \<Rightarrow> parser_state \<Rightarrow> parser_state option" where
  "end_document ext s = end_scope ext ROOT ROOT s"

definition increment_count :: "parser_state \<Rightarrow> parser_state option" where
  "increment_count s = do {
     cs \<leftarrow> modify (containing_scope s) (unat (depth s - 1)) (\<lambda>d. d\<lparr>count := count d + 1\<rparr>);
     Some (s\<lparr>containing_scope := cs\<rparr>)
   }"

subsection \<open>Value handlers\<close>

text \<open>
  \<^verbatim>\<open>memcpy\<close> of a \<^verbatim>\<open>uint32_t\<close> stores its bytes in the order of the machine;
  the library runs on little-endian machines, and the model stores the least significant
  byte first.
\<close>

definition le_bytes :: "32 word \<Rightarrow> 8 word list" where
  "le_bytes w = [ucast w, ucast (drop_bit 8 w), ucast (drop_bit 16 w), ucast (drop_bit 24 w)]"

definition on_start_string :: "externals \<Rightarrow> parser_state \<Rightarrow> (nat \<times> parser_state) option" where
  "on_start_string ext s = do {
     s1 \<leftarrow> tape_append ext (of_nat (current_string_buf_loc s)) STRING s;
     Some (current_string_buf_loc s1 + 4, s1)
   }"

text \<open>
  The difference of the two pointers is a \<^verbatim>\<open>ptrdiff_t\<close>, which the cast to
  \<^verbatim>\<open>uint32_t\<close> reduces modulo \<open>2 ^ 32\<close>.
\<close>

definition on_end_string :: "nat \<Rightarrow> parser_state \<Rightarrow> parser_state option" where
  "on_end_string dst s = do {
     let str_length = (word_of_int (int dst - int (current_string_buf_loc s + 4)) :: 32 word);
     sb1 \<leftarrow> wr_seq (string_buf s) (current_string_buf_loc s) (le_bytes str_length);
     sb2 \<leftarrow> wr sb1 dst 0;
     Some (s\<lparr>string_buf := sb2, current_string_buf_loc := dst + 1\<rparr>)
   }"

text \<open>
  \<^verbatim>\<open>parse_string\<close>: the bytes the decoder stored are written from \<^verbatim>\<open>dst\<close> on
  before its answer is looked at. The flag \<^verbatim>\<open>key\<close> is used for logging only.
\<close>

definition parse_string :: "externals \<Rightarrow> parser_state \<Rightarrow> (bool \<times> parser_state) option" where
  "parse_string ext s = do {
     (dst, s1) \<leftarrow> on_start_string ext s;
     src \<leftarrow> current s1;
     let (body, ok) = string_decoder ext (buf s1) src;
     sb \<leftarrow> wr_seq (string_buf s1) dst body;
     let s2 = s1\<lparr>string_buf := sb\<rparr>;
     if \<not> ok then Some (True, s2)
     else do {
       s3 \<leftarrow> on_end_string (dst + length body) s2;
       Some (False, s3)
     }
   }"

text \<open>\<^verbatim>\<open>parse_number(src)\<close>, with \<^verbatim>\<open>src\<close> as a buffer and an offset into it.\<close>

definition parse_number_at :: "externals \<Rightarrow> 8 word list \<Rightarrow> nat \<Rightarrow> parser_state \<Rightarrow> (bool \<times> parser_state) option" where
  "parse_number_at ext b i s = do {
     let (ws, succeeded) = number_parser ext b i;
     s1 \<leftarrow> tape_append_raw ws s;
     Some (\<not> succeeded, s1)
   }"

definition parse_number :: "externals \<Rightarrow> parser_state \<Rightarrow> (bool \<times> parser_state) option" where
  "parse_number ext s = do { i \<leftarrow> current s; parse_number_at ext (buf s) i s }"

definition parse_root_number :: "externals \<Rightarrow> parser_state \<Rightarrow> (bool \<times> parser_state) option" where
  "parse_root_number ext s =
     (if \<not> malloc_succeeds ext (len s + SIMDJSON_PADDING ext) then Some (True, s)
      else if length (buf s) < len s then None
      else do {
        let copy = take (len s) (buf s) @ replicate (SIMDJSON_PADDING ext) 0x20;
        idx \<leftarrow> current s;
        parse_number_at ext copy idx s
      })"

definition parse_true_atom :: "externals \<Rightarrow> parser_state \<Rightarrow> (bool \<times> parser_state) option" where
  "parse_true_atom ext s = do {
     i \<leftarrow> current s;
     if \<not> is_valid_true_atom ext (buf s) i then Some (True, s)
     else do { s1 \<leftarrow> tape_append ext 0 TRUE_VALUE s; Some (False, s1) }
   }"

definition parse_root_true_atom :: "externals \<Rightarrow> parser_state \<Rightarrow> (bool \<times> parser_state) option" where
  "parse_root_true_atom ext s = do {
     i \<leftarrow> current s;
     r \<leftarrow> remaining_len s;
     if \<not> is_valid_true_atom_len ext (buf s) i r then Some (True, s)
     else do { s1 \<leftarrow> tape_append ext 0 TRUE_VALUE s; Some (False, s1) }
   }"

definition parse_false_atom :: "externals \<Rightarrow> parser_state \<Rightarrow> (bool \<times> parser_state) option" where
  "parse_false_atom ext s = do {
     i \<leftarrow> current s;
     if \<not> is_valid_false_atom ext (buf s) i then Some (True, s)
     else do { s1 \<leftarrow> tape_append ext 0 FALSE_VALUE s; Some (False, s1) }
   }"

definition parse_root_false_atom :: "externals \<Rightarrow> parser_state \<Rightarrow> (bool \<times> parser_state) option" where
  "parse_root_false_atom ext s = do {
     i \<leftarrow> current s;
     r \<leftarrow> remaining_len s;
     if \<not> is_valid_false_atom_len ext (buf s) i r then Some (True, s)
     else do { s1 \<leftarrow> tape_append ext 0 FALSE_VALUE s; Some (False, s1) }
   }"

definition parse_null_atom :: "externals \<Rightarrow> parser_state \<Rightarrow> (bool \<times> parser_state) option" where
  "parse_null_atom ext s = do {
     i \<leftarrow> current s;
     if \<not> is_valid_null_atom ext (buf s) i then Some (True, s)
     else do { s1 \<leftarrow> tape_append ext 0 NULL_VALUE s; Some (False, s1) }
   }"

definition parse_root_null_atom :: "externals \<Rightarrow> parser_state \<Rightarrow> (bool \<times> parser_state) option" where
  "parse_root_null_atom ext s = do {
     i \<leftarrow> current s;
     r \<leftarrow> remaining_len s;
     if \<not> is_valid_null_atom_len ext (buf s) i r then Some (True, s)
     else do { s1 \<leftarrow> tape_append ext 0 NULL_VALUE s; Some (False, s1) }
   }"

subsection \<open>Finish, error, start\<close>

definition finish :: "externals \<Rightarrow> parser_state \<Rightarrow> (error_code \<times> parser_state) option" where
  "finish ext s = do {
     s1 \<leftarrow> end_document ext s;
     let s2 = s1\<lparr>next_structural_index := of_nat (current_structural s1 + 1)\<rparr>;
     if depth s2 \<noteq> 0 then Some (TAPE_ERROR, s2\<lparr>error := TAPE_ERROR\<rparr>)
     else Some (SUCCESS, s2)
   }"

text \<open>The cases \<^verbatim>\<open>'0'\<close> to \<^verbatim>\<open>'9'\<close> and \<^verbatim>\<open>'-'\<close> of the switches.\<close>

definition is_number_start :: "8 word \<Rightarrow> bool" where
  "is_number_start c \<longleftrightarrow>
     c \<in> set [0x30, 0x31, 0x32, 0x33, 0x34, 0x35, 0x36, 0x37, 0x38, 0x39, 0x2D]"

text \<open>The method \<^verbatim>\<open>error()\<close>; the field \<^verbatim>\<open>parser.error\<close> has the name \<open>error\<close>.\<close>

definition error_fn :: "parser_state \<Rightarrow> (error_code \<times> parser_state) option" where
  "error_fn s =
     (if max_depth s \<le> unat (depth s) then Some (DEPTH_ERROR, s\<lparr>error := DEPTH_ERROR\<rparr>)
      else do {
        c \<leftarrow> current_char s;
        let e = (if c = 0x22 then STRING_ERROR
                 else if is_number_start c then NUMBER_ERROR
                 else if c = 0x74 then T_ATOM_ERROR
                 else if c = 0x6E then N_ATOM_ERROR
                 else if c = 0x66 then F_ATOM_ERROR
                 else TAPE_ERROR);
        Some (e, s\<lparr>error := e\<rparr>)
      })"

definition init :: "parser_state \<Rightarrow> parser_state" where
  "init s = s\<lparr>error := UNINITIALIZED\<rparr>"

definition start :: "8 word \<Rightarrow> parser_state \<Rightarrow> (error_code \<times> parser_state) option" where
  "start finish_state s =
     (if at_end s (n_structural_indexes s) then Some (EMPTY, s\<lparr>error := EMPTY\<rparr>)
      else do {
        (failed, s1) \<leftarrow> start_document finish_state (init s);
        if failed then Some (DEPTH_ERROR, s1\<lparr>error := DEPTH_ERROR\<rparr>)
        else Some (SUCCESS, s1)
      })"

subsection \<open>The state machine of \<^verbatim>\<open>parse_structurals\<close>\<close>

text \<open>
  One constructor for each label of \<^verbatim>\<open>parse_structurals\<close>; \<open>Document_begin\<close> is
  the \<^verbatim>\<open>switch\<close> that reads the first value.
\<close>

datatype label =
  Document_begin | Object_begin | Object_key_state | Object_continue | Scope_end
  | Array_begin | Main_array_switch | Array_continue | Finish | Error

datatype outcome = Goto label parser_state | Return error_code parser_state

text \<open>\<^verbatim>\<open>INIT_ADDRESSES()\<close> is \<^verbatim>\<open>{ 0, 1, 2 }\<close>.\<close>

definition addr_array_continue :: "8 word" where "addr_array_continue = 0"
definition addr_finish :: "8 word" where "addr_finish = 1"
definition addr_object_continue :: "8 word" where "addr_object_continue = 2"

text \<open>\<^verbatim>\<open>if ( f() ) { goto error; } goto l;\<close>\<close>

definition branch :: "(bool \<times> parser_state) option \<Rightarrow> label \<Rightarrow> outcome option" where
  "branch r l = do { (failed, s') \<leftarrow> r; Some (if failed then Goto Error s' else Goto l s') }"

text \<open>
  The \<^verbatim>\<open>switch\<close> on the first byte of a value, as \<^verbatim>\<open>object_key_state\<close> and
  \<^verbatim>\<open>main_array_switch\<close> have it: the two differ in the continuation they give a
  nested scope and in the label a scalar falls through to.
\<close>

definition parse_value :: "externals \<Rightarrow> 8 word \<Rightarrow> label \<Rightarrow> 8 word \<Rightarrow> parser_state \<Rightarrow> outcome option" where
  "parse_value ext addr continue c s =
     (if c = 0x7B then branch (start_object addr s) Object_begin
      else if c = 0x5B then branch (start_array addr s) Array_begin
      else if c = 0x22 then branch (parse_string ext s) continue
      else if c = 0x74 then branch (parse_true_atom ext s) continue
      else if c = 0x66 then branch (parse_false_atom ext s) continue
      else if c = 0x6E then branch (parse_null_atom ext s) continue
      else if is_number_start c then branch (parse_number ext s) continue
      else Some (Goto Error s))"

text \<open>
  \<^verbatim>\<open>CONTINUE(address)\<close>: a \<^verbatim>\<open>switch\<close> without a default, followed in the text by
  the label \<^verbatim>\<open>array_begin\<close>.
\<close>

definition continue_at :: "8 word \<Rightarrow> label" where
  "continue_at address =
     (if address = 0 then Array_continue
      else if address = 1 then Finish
      else if address = 2 then Object_continue
      else Array_begin)"

fun step :: "externals \<Rightarrow> bool \<Rightarrow> label \<Rightarrow> parser_state \<Rightarrow> outcome option" where
  "step ext streaming Document_begin s = do {
     c \<leftarrow> current_char s;
     if c = 0x7B then branch (start_object addr_finish s) Object_begin
     else if c = 0x5B then do {
       (failed, s1) \<leftarrow> start_array addr_finish s;
       if failed then Some (Goto Error s1)
       else if \<not> streaming then do {
         i \<leftarrow> rd (structural_indexes s1) (unat (n_structural_indexes s1 - 1));
         c' \<leftarrow> rd (buf s1) (unat i);
         if c' \<noteq> 0x5D then Some (Goto Error s1) else Some (Goto Array_begin s1)
       }
       else Some (Goto Array_begin s1)
     }
     else if c = 0x22 then branch (parse_string ext s) Finish
     else if c = 0x74 then branch (parse_root_true_atom ext s) Finish
     else if c = 0x66 then branch (parse_root_false_atom ext s) Finish
     else if c = 0x6E then branch (parse_root_null_atom ext s) Finish
     else if is_number_start c then branch (parse_root_number ext s) Finish
     else Some (Goto Error s)
   }"
| "step ext streaming Object_begin s = do {
     (c, s1) \<leftarrow> advance_char s;
     if c = 0x22 then do {
       s2 \<leftarrow> increment_count s1;
       branch (parse_string ext s2) Object_key_state
     }
     else if c = 0x7D then do { s2 \<leftarrow> end_object ext s1; Some (Goto Scope_end s2) }
     else Some (Goto Error s1)
   }"
| "step ext streaming Object_key_state s = do {
     (c, s1) \<leftarrow> advance_char s;
     if c \<noteq> 0x3A then Some (Goto Error s1)
     else do {
       (c', s2) \<leftarrow> advance_char s1;
       parse_value ext addr_object_continue Object_continue c' s2
     }
   }"
| "step ext streaming Object_continue s = do {
     (c, s1) \<leftarrow> advance_char s;
     if c = 0x2C then do {
       s2 \<leftarrow> increment_count s1;
       (c', s3) \<leftarrow> advance_char s2;
       if c' \<noteq> 0x22 then Some (Goto Error s3)
       else branch (parse_string ext s3) Object_key_state
     }
     else if c = 0x7D then do { s2 \<leftarrow> end_object ext s1; Some (Goto Scope_end s2) }
     else Some (Goto Error s1)
   }"
| "step ext streaming Scope_end s = do {
     a \<leftarrow> rd (ret_address s) (unat (depth s));
     Some (Goto (continue_at a) s)
   }"
| "step ext streaming Array_begin s = do {
     c \<leftarrow> peek_next_char s;
     if c = 0x5D then do {
       (c', s1) \<leftarrow> advance_char s;
       s2 \<leftarrow> end_array ext s1;
       Some (Goto Scope_end s2)
     }
     else do { s1 \<leftarrow> increment_count s; Some (Goto Main_array_switch s1) }
   }"
| "step ext streaming Main_array_switch s = do {
     (c, s1) \<leftarrow> advance_char s;
     parse_value ext addr_array_continue Array_continue c s1
   }"
| "step ext streaming Array_continue s = do {
     (c, s1) \<leftarrow> advance_char s;
     if c = 0x2C then do { s2 \<leftarrow> increment_count s1; Some (Goto Main_array_switch s2) }
     else if c = 0x5D then do { s2 \<leftarrow> end_array ext s1; Some (Goto Scope_end s2) }
     else Some (Goto Error s1)
   }"
| "step ext streaming Finish s = do { (e, s1) \<leftarrow> finish ext s; Some (Return e s1) }"
| "step ext streaming Error s = do { (e, s1) \<leftarrow> error_fn s; Some (Return e s1) }"

subsection \<open>What a call leaves unchanged\<close>

text \<open>
  \<open>frame s s'\<close>: the input, the configuration, \<open>next_structural_index\<close>, the
  error field, the cursor into the structural indexes and the capacity of every buffer
  are the same in \<open>s'\<close> as in \<open>s\<close>, and the tape cursor has not moved back. Every
  operation but \<^verbatim>\<open>advance_char\<close>, \<^verbatim>\<open>finish\<close>, \<^verbatim>\<open>error\<close> and
  \<^verbatim>\<open>start\<close> is within the frame.
\<close>

definition frame :: "parser_state \<Rightarrow> parser_state \<Rightarrow> bool" where
  "frame s s' \<longleftrightarrow>
     buf s' = buf s \<and> len s' = len s \<and> structural_indexes s' = structural_indexes s \<and>
     n_structural_indexes s' = n_structural_indexes s \<and>
     next_structural_index s' = next_structural_index s \<and>
     max_depth s' = max_depth s \<and> error s' = error s \<and>
     length (tape s') = length (tape s) \<and>
     length (containing_scope s') = length (containing_scope s) \<and>
     length (ret_address s') = length (ret_address s) \<and>
     length (string_buf s') = length (string_buf s) \<and>
     next_tape_loc s \<le> next_tape_loc s' \<and>
     current_structural s' = current_structural s"

lemma frame_refl: "frame s s"
  by (simp add: frame_def)

lemma frame_trans: "frame s s1 \<Longrightarrow> frame s1 s2 \<Longrightarrow> frame s s2"
  by (simp add: frame_def)

lemma wr_length: "wr xs i v = Some ys \<Longrightarrow> length ys = length xs"
  by (auto simp: wr_def split: if_splits)

lemma modify_length: "modify xs i f = Some ys \<Longrightarrow> length ys = length xs"
  by (auto simp: modify_def split: if_splits)

lemma wr_seq_length: "wr_seq xs i vs = Some ys \<Longrightarrow> length ys = length xs"
  by (auto simp: wr_seq_def split: if_splits)

lemma tape_append_frame: "tape_append ext v t s = Some s' \<Longrightarrow> frame s s'"
  by (auto simp: tape_append_def frame_def split: Option.bind_splits dest: wr_length)

lemma tape_write_frame: "tape_write ext i v t s = Some s' \<Longrightarrow> frame s s'"
  by (auto simp: tape_write_def frame_def split: Option.bind_splits dest: wr_length)

lemma tape_append_raw_frame: "tape_append_raw ws s = Some s' \<Longrightarrow> frame s s'"
  by (auto simp: tape_append_raw_def frame_def split: Option.bind_splits dest: wr_seq_length)

lemma start_scope_frame: "start_scope c s = Some (b, s') \<Longrightarrow> frame s s'"
  by (auto simp: start_scope_def tape_skip_def frame_def Let_def split: Option.bind_splits
      dest!: wr_length modify_length)

lemma end_scope_frame: "end_scope ext a b s = Some s' \<Longrightarrow> frame s s'"
  unfolding end_scope_def Let_def
  by (auto split: Option.bind_splits dest!: tape_append_frame tape_write_frame simp: frame_def)

lemma increment_count_frame: "increment_count s = Some s' \<Longrightarrow> frame s s'"
  by (auto simp: increment_count_def frame_def split: Option.bind_splits dest: modify_length)

lemma on_end_string_frame: "on_end_string d s = Some s' \<Longrightarrow> frame s s'"
  by (auto simp: on_end_string_def frame_def Let_def split: Option.bind_splits
      dest!: wr_length wr_seq_length)

lemma parse_string_frame: "parse_string ext s = Some (b, s') \<Longrightarrow> frame s s'"
  unfolding parse_string_def on_start_string_def Let_def
  by (auto split: Option.bind_splits prod.splits if_splits
      dest!: tape_append_frame on_end_string_frame wr_seq_length simp: frame_def)

lemma parse_number_at_frame: "parse_number_at ext bf i s = Some (b, s') \<Longrightarrow> frame s s'"
  unfolding parse_number_at_def Let_def
  by (auto split: Option.bind_splits prod.splits dest!: tape_append_raw_frame)

lemma parse_number_frame: "parse_number ext s = Some (b, s') \<Longrightarrow> frame s s'"
  unfolding parse_number_def
  by (auto split: Option.bind_splits dest!: parse_number_at_frame)

lemma parse_root_number_frame: "parse_root_number ext s = Some (b, s') \<Longrightarrow> frame s s'"
  unfolding parse_root_number_def Let_def
  by (auto split: Option.bind_splits if_splits dest!: parse_number_at_frame simp: frame_refl)

lemma atoms_frame:
  "parse_true_atom ext s = Some (b, s') \<Longrightarrow> frame s s'"
  "parse_false_atom ext s = Some (b, s') \<Longrightarrow> frame s s'"
  "parse_null_atom ext s = Some (b, s') \<Longrightarrow> frame s s'"
  "parse_root_true_atom ext s = Some (b, s') \<Longrightarrow> frame s s'"
  "parse_root_false_atom ext s = Some (b, s') \<Longrightarrow> frame s s'"
  "parse_root_null_atom ext s = Some (b, s') \<Longrightarrow> frame s s'"
  unfolding parse_true_atom_def parse_false_atom_def parse_null_atom_def
    parse_root_true_atom_def parse_root_false_atom_def parse_root_null_atom_def
  by (auto split: Option.bind_splits if_splits dest!: tape_append_frame simp: frame_refl)


lemma advance_char_Some:
  "advance_char s = Some (c, s') \<Longrightarrow>
     s' = s\<lparr>current_structural := current_structural s + 1\<rparr> \<and>
     current_structural s + 1 < length (structural_indexes s)"
  by (auto simp: advance_char_def current_char_def current_def rd_def Let_def
      split: Option.bind_splits if_splits)

lemma branch_Some: "branch (Some (b, s1)) l = Some (Goto (if b then Error else l) s1)"
  by (simp add: branch_def)

lemma branch_None: "branch None l = None"
  by (simp add: branch_def)

definition gotos :: "(label \<Rightarrow> parser_state \<Rightarrow> bool) \<Rightarrow> outcome option \<Rightarrow> bool" where
  "gotos P r \<longleftrightarrow> (\<forall>l s. r = Some (Goto l s) \<longrightarrow> P l s)"

lemma gotos_bind: "(\<And>x. m = Some x \<Longrightarrow> gotos P (f x)) \<Longrightarrow> gotos P (Option.bind m f)"
  by (cases m) (auto simp: gotos_def)

lemma gotos_if: "(b \<Longrightarrow> gotos P x) \<Longrightarrow> (\<not> b \<Longrightarrow> gotos P y) \<Longrightarrow> gotos P (if b then x else y)"
  by simp

lemma gotos_Goto: "P l s \<Longrightarrow> gotos P (Some (Goto l s))"
  by (simp add: gotos_def)

lemma gotos_Return: "gotos P (Some (Return e s))"
  by (simp add: gotos_def)

lemma gotos_prod: "(\<And>a b. x = (a, b) \<Longrightarrow> gotos P (f a b)) \<Longrightarrow> gotos P (case x of (a, b) \<Rightarrow> f a b)"
  by (cases x) simp

lemma gotos_branch:
  assumes "\<And>s'. r = Some (True, s') \<Longrightarrow> P Error s'"
    and "\<And>s'. r = Some (False, s') \<Longrightarrow> P l s'"
  shows "gotos P (branch r l)"
proof (cases r)
  case None
  then show ?thesis by (simp add: branch_None gotos_def)
next
  case (Some p)
  obtain b s1 where p: "p = (b, s1)" by (cases p)
  show ?thesis
  proof (cases b)
    case True
    with Some p assms(1) show ?thesis by (simp add: branch_Some gotos_def)
  next
    case False
    with Some p assms(2) show ?thesis by (simp add: branch_Some gotos_def)
  qed
qed

lemmas gotos_intros = gotos_bind gotos_if gotos_Goto gotos_Return gotos_prod gotos_branch

lemma gotosD: "gotos P r \<Longrightarrow> r = Some (Goto l s) \<Longrightarrow> P l s"
  by (simp add: gotos_def)

lemma gotos_weaken: "gotos Q r \<Longrightarrow> (\<And>l s. Q l s \<Longrightarrow> P l s) \<Longrightarrow> gotos P r"
  by (simp add: gotos_def)

lemma parse_value_gotos:
  "gotos (\<lambda>l' s'. frame s s' \<and> (l' = Object_begin \<or> l' = Array_begin \<or> l' = k \<or> l' = Error))
     (parse_value ext a k c s)"
  unfolding parse_value_def start_object_def start_array_def
  by (intro gotos_intros conjI)
    (simp_all add: start_scope_frame parse_string_frame atoms_frame parse_number_frame frame_refl)

fun rank :: "label \<Rightarrow> nat" where
  "rank Document_begin = 4"
| "rank Scope_end = 3"
| "rank Array_begin = 2"
| "rank Finish = 0"
| "rank Error = 0"
| "rank l = 1"

definition advanced :: "parser_state \<Rightarrow> parser_state \<Rightarrow> bool" where
  "advanced s s' \<longleftrightarrow>
     frame (s\<lparr>current_structural := current_structural s'\<rparr>) s' \<and>
     current_structural s < current_structural s' \<and>
     current_structural s' < length (structural_indexes s)"

definition progress :: "label \<Rightarrow> parser_state \<Rightarrow> label \<Rightarrow> parser_state \<Rightarrow> bool" where
  "progress l s l' s' \<longleftrightarrow> frame s s' \<and> rank l' < rank l \<or> advanced s s'"

lemma advance_char_advanced: "advance_char s = Some (c, s') \<Longrightarrow> advanced s s'"
  by (auto dest!: advance_char_Some simp: advanced_def frame_def)

lemma advanced_frame: "advanced s s1 \<Longrightarrow> frame s1 s2 \<Longrightarrow> advanced s s2"
  by (simp add: advanced_def frame_def)

lemma advanced_trans: "advanced s s1 \<Longrightarrow> advanced s1 s2 \<Longrightarrow> advanced s s2"
  by (simp add: advanced_def frame_def)

lemma frame_advanced: "frame s s1 \<Longrightarrow> advanced s1 s2 \<Longrightarrow> advanced s s2"
  by (simp add: advanced_def frame_def)

lemma progress_advanced: "advanced s s' \<Longrightarrow> progress l s l' s'"
  by (simp add: progress_def)

lemmas frame_rules = start_scope_frame end_scope_frame increment_count_frame parse_string_frame
  parse_number_frame parse_root_number_frame atoms_frame

lemma step_gotos_progress: "gotos (progress l s) (step ext streaming l s)"
proof (cases l)
  case Document_begin
  show ?thesis
    unfolding Document_begin step.simps start_object_def start_array_def
    by (intro gotos_intros) (auto simp: progress_def frame_refl dest: frame_rules)
next
  case Object_begin
  show ?thesis
    unfolding Object_begin step.simps end_object_def
    by (intro gotos_intros progress_advanced)
      (blast intro: advance_char_advanced frame_rules advanced_frame)+
next
  case Object_key_state
  show ?thesis
    unfolding Object_key_state step.simps
    apply (intro gotos_intros progress_advanced gotos_weaken [OF parse_value_gotos])
     apply (auto dest!: advance_char_advanced dest: advanced_frame advanced_trans)
    done
next
  case Object_continue
  show ?thesis
    unfolding Object_continue step.simps end_object_def
    by (intro gotos_intros progress_advanced)
      (blast intro: advance_char_advanced frame_rules advanced_frame advanced_trans)+
next
  case Scope_end
  show ?thesis
    unfolding Scope_end step.simps
    by (intro gotos_intros) (simp add: progress_def frame_refl continue_at_def)
next
  case Array_begin
  show ?thesis
    unfolding Array_begin step.simps end_array_def
    by (intro gotos_intros)
      (auto simp: progress_def dest!: advance_char_advanced dest: frame_rules advanced_frame)
next
  case Main_array_switch
  show ?thesis
    unfolding Main_array_switch step.simps
    apply (intro gotos_intros progress_advanced gotos_weaken [OF parse_value_gotos])
    apply (auto dest!: advance_char_advanced dest: advanced_frame)
    done
next
  case Array_continue
  show ?thesis
    unfolding Array_continue step.simps end_array_def
    by (intro gotos_intros progress_advanced)
      (auto dest!: advance_char_advanced dest: frame_rules advanced_frame)
next
  case Finish
  show ?thesis
    unfolding Finish step.simps by (intro gotos_intros)
next
  case Error
  show ?thesis
    unfolding Error step.simps by (intro gotos_intros)
qed

subsection \<open>Running the machine\<close>

text \<open>
  Every pass through a label either moves the cursor into the structural indexes forward
  (and a read past the end of the indexes is \<open>None\<close>) or goes to a label of lower
  rank, so the machine stops on every input.
\<close>

function run :: "externals \<Rightarrow> bool \<Rightarrow> label \<Rightarrow> parser_state \<Rightarrow> (error_code \<times> parser_state) option" where
  "run ext streaming l s =
     (case step ext streaming l s of
        None \<Rightarrow> None
      | Some (Return e s') \<Rightarrow> Some (e, s')
      | Some (Goto l' s') \<Rightarrow> run ext streaming l' s')"
  by pat_completeness auto
termination
proof (relation "measure (\<lambda>(ext, streaming, l, s).
          5 * (length (structural_indexes s) - current_structural s) + rank l)")
  show "wf (measure (\<lambda>(ext, streaming, l, s).
          5 * (length (structural_indexes s) - current_structural s) + rank l))"
    by simp
next
  fix ext streaming l s x2 l' s'
  assume "step ext streaming l s = Some x2" "x2 = Goto l' s'"
  then have "progress l s l' s'"
    using step_gotos_progress [of l s ext streaming] by (simp add: gotos_def)
  moreover have "rank l' < 5"
    by (cases l') simp_all
  ultimately show "((ext, streaming, l', s'), (ext, streaming, l, s)) \<in>
      measure (\<lambda>(ext, streaming, l, s).
          5 * (length (structural_indexes s) - current_structural s) + rank l)"
    by (auto simp: progress_def advanced_def frame_def)
qed

declare run.simps [simp del]

text \<open>
  The constructor of \<^verbatim>\<open>structural_parser\<close>: the cursors are at the start of the
  tape and of the string buffer, the depth is 0.
\<close>

definition structural_parser :: "parser_state \<Rightarrow> nat \<Rightarrow> parser_state" where
  "structural_parser dom_parser start_structural_index =
     dom_parser\<lparr>current_structural := start_structural_index,
       next_tape_loc := 0, current_string_buf_loc := 0, depth := 0\<rparr>"

text \<open>\<^verbatim>\<open>parse_structurals<STREAMING>\<close>; an \<^verbatim>\<open>error_code\<close> is true when it is not \<^verbatim>\<open>SUCCESS\<close>.\<close>

definition parse_structurals :: "externals \<Rightarrow> bool \<Rightarrow> parser_state \<Rightarrow> (error_code \<times> parser_state) option" where
  "parse_structurals ext streaming dom_parser = do {
     let parser = structural_parser dom_parser
           (if streaming then unat (next_structural_index dom_parser) else 0);
     (result, parser1) \<leftarrow> start addr_finish parser;
     if result \<noteq> SUCCESS then Some (result, parser1)
     else run ext streaming Document_begin parser1
   }"

subsection \<open>The configurations of a parse\<close>

text \<open>
  The configuration of the machine \<open>k\<close> passes after the configuration \<open>(l, s)\<close>, and
  the configuration \<^verbatim>\<open>parse_structurals\<close> is in \<open>k\<close> passes after
  \<^verbatim>\<open>start\<close> has succeeded.
\<close>

fun steps :: "externals \<Rightarrow> bool \<Rightarrow> nat \<Rightarrow> label \<Rightarrow> parser_state \<Rightarrow> (label \<times> parser_state) option" where
  "steps ext streaming 0 l s = Some (l, s)"
| "steps ext streaming (Suc k) l s =
     (case step ext streaming l s of
        Some (Goto l' s') \<Rightarrow> steps ext streaming k l' s'
      | _ \<Rightarrow> None)"

definition reached :: "externals \<Rightarrow> bool \<Rightarrow> parser_state \<Rightarrow> nat \<Rightarrow> (label \<times> parser_state) option" where
  "reached ext streaming dom_parser k = do {
     let parser = structural_parser dom_parser
           (if streaming then unat (next_structural_index dom_parser) else 0);
     (result, parser1) \<leftarrow> start addr_finish parser;
     if result \<noteq> SUCCESS then None
     else steps ext streaming k Document_begin parser1
   }"

text \<open>
  Modelled from the spec: the nesting depth of an input is the greatest number of scopes
  open at once, the document counting as one; the structural bytes \<^verbatim>\<open>{\<close> and
  \<^verbatim>\<open>[\<close> open a scope, \<^verbatim>\<open>}\<close> and \<^verbatim>\<open>]\<close> close one.
\<close>

fun nesting :: "nat \<Rightarrow> 8 word list \<Rightarrow> nat" where
  "nesting d [] = d"
| "nesting d (c # cs) =
     (if c = 0x7B \<or> c = 0x5B then max d (nesting (d + 1) cs)
      else if c = 0x7D \<or> c = 0x5D then max d (nesting (d - 1) cs)
      else nesting d cs)"

definition structural_bytes :: "parser_state \<Rightarrow> 8 word list" where
  "structural_bytes p =
     map (\<lambda>i. buf p ! unat i) (take (unat (n_structural_indexes p)) (structural_indexes p))"

definition nesting_depth :: "parser_state \<Rightarrow> nat" where
  "nesting_depth p = nesting 1 (structural_bytes p)"

subsection \<open>A concrete instance\<close>

text \<open>
  Collaborators simple enough to evaluate, for the examples: the tags are the characters
  simdjson uses, the decoder copies the bytes up to the closing quote and fails on a
  backslash or a missing quote, the number parser reads one decimal digit, the atom
  validators compare the bytes.
\<close>

definition example_tag_code :: "tape_type \<Rightarrow> 8 word" where
  "example_tag_code t =
     (case t of ROOT \<Rightarrow> 0x72 | START_OBJECT \<Rightarrow> 0x7B | END_OBJECT \<Rightarrow> 0x7D
      | START_ARRAY \<Rightarrow> 0x5B | END_ARRAY \<Rightarrow> 0x5D | STRING \<Rightarrow> 0x22 | INT64 \<Rightarrow> 0x6C
      | UINT64 \<Rightarrow> 0x75 | DOUBLE \<Rightarrow> 0x64 | TRUE_VALUE \<Rightarrow> 0x74 | FALSE_VALUE \<Rightarrow> 0x66
      | NULL_VALUE \<Rightarrow> 0x6E)"

definition example_string_decoder :: "8 word list \<Rightarrow> nat \<Rightarrow> 8 word list \<times> bool" where
  "example_string_decoder b i =
     (let bs = drop (i + 1) b; body = takeWhile (\<lambda>c. c \<noteq> 0x22 \<and> c \<noteq> 0x5C) bs
      in (body, length body < length bs \<and> bs ! length body = 0x22))"

definition example_number_parser :: "8 word list \<Rightarrow> nat \<Rightarrow> 64 word list \<times> bool" where
  "example_number_parser b i =
     (if i < length b \<and> 0x30 \<le> b ! i \<and> b ! i \<le> 0x39
      then ([push_bit 56 0x6C, ucast (b ! i - 0x30)], True) else ([], False))"

definition example_externals :: externals where
  "example_externals = \<lparr>
     tag_code = example_tag_code,
     string_decoder = example_string_decoder,
     number_parser = example_number_parser,
     is_valid_true_atom = (\<lambda>b i. take 4 (drop i b) = [0x74, 0x72, 0x75, 0x65]),
     is_valid_false_atom = (\<lambda>b i. take 5 (drop i b) = [0x66, 0x61, 0x6C, 0x73, 0x65]),
     is_valid_null_atom = (\<lambda>b i. take 4 (drop i b) = [0x6E, 0x75, 0x6C, 0x6C]),
     is_valid_true_atom_len = (\<lambda>b i n. take 4 (drop i b) = [0x74, 0x72, 0x75, 0x65] \<and> n = 4),
     is_valid_false_atom_len =
       (\<lambda>b i n. take 5 (drop i b) = [0x66, 0x61, 0x6C, 0x73, 0x65] \<and> n = 5),
     is_valid_null_atom_len = (\<lambda>b i n. take 4 (drop i b) = [0x6E, 0x75, 0x6C, 0x6C] \<and> n = 4),
     malloc_succeeds = (\<lambda>n. True),
     SIMDJSON_PADDING = 8 \<rparr>"

text \<open>
  A parser over the buffer \<open>b\<close> of logical length \<open>n\<close> with the structural indexes
  \<open>si\<close>, of which \<open>nsi\<close> count, with room for \<open>md\<close> scopes, \<open>tcap\<close> tape words
  and \<open>scap\<close> string bytes.
\<close>

definition example_parser :: "8 word list \<Rightarrow> nat \<Rightarrow> 32 word list \<Rightarrow> 32 word \<Rightarrow> nat \<Rightarrow> nat \<Rightarrow> nat \<Rightarrow> parser_state" where
  "example_parser b n si nsi md tcap scap = \<lparr>
     buf = b, len = n, structural_indexes = si, n_structural_indexes = nsi,
     next_structural_index = 0,
     containing_scope = replicate md \<lparr>tape_index = 0, count = 0\<rparr>,
     ret_address = replicate md 0, max_depth = md, error = SUCCESS,
     tape = replicate tcap 0, string_buf = replicate scap 0,
     current_structural = 0, next_tape_loc = 0, current_string_buf_loc = 0, depth = 0 \<rparr>"

text \<open>The document \<^verbatim>\<open>{}\<close>, and the document \<^verbatim>\<open>[1\<close> cut short.\<close>

definition empty_object_doc :: parser_state where
  "empty_object_doc = example_parser [0x7B, 0x7D, 0x20, 0x20] 2 [0, 1, 2, 0] 2 4 4 8"

definition cut_array_doc :: parser_state where
  "cut_array_doc = example_parser [0x5B, 0x31, 0x20, 0x20] 2 [0, 1, 2, 0] 2 4 4 8"

text \<open>
  A state inside the array of \<^verbatim>\<open>[trux]\<close>, at the structural \<^verbatim>\<open>t\<close>, with room
  for three scopes.
\<close>

definition at_true_depth3 :: parser_state where
  "at_true_depth3 = (example_parser [0x5B, 0x74, 0x72, 0x75, 0x78, 0x5D] 6 [0, 1, 5, 6, 0] 3 4 4 8)
     \<lparr>current_structural := 1, depth := 2\<rparr>"

section \<open>Properties\<close>

subsection \<open>Outcomes of a step, and whole runs\<close>

lemma run_Error: "run ext streaming Error s = error_fn s"
  by (cases "error_fn s") (auto simp: run.simps)

lemma run_Finish: "run ext streaming Finish s = finish ext s"
  by (cases "finish ext s") (auto simp: run.simps)

definition returns :: "(error_code \<Rightarrow> parser_state \<Rightarrow> bool) \<Rightarrow> outcome option \<Rightarrow> bool" where
  "returns R r \<longleftrightarrow> (\<forall>e s. r = Some (Return e s) \<longrightarrow> R e s)"

lemma returns_bind: "(\<And>x. m = Some x \<Longrightarrow> returns R (f x)) \<Longrightarrow> returns R (Option.bind m f)"
  by (cases m) (auto simp: returns_def)

lemma returns_if: "(b \<Longrightarrow> returns R x) \<Longrightarrow> (\<not> b \<Longrightarrow> returns R y) \<Longrightarrow> returns R (if b then x else y)"
  by simp

lemma returns_Goto: "returns R (Some (Goto l s))"
  by (simp add: returns_def)

lemma returns_Return: "R e s \<Longrightarrow> returns R (Some (Return e s))"
  by (simp add: returns_def)

lemma returns_prod: "(\<And>a b. x = (a, b) \<Longrightarrow> returns R (f a b)) \<Longrightarrow> returns R (case x of (a, b) \<Rightarrow> f a b)"
  by (cases x) simp

lemma returns_branch: "returns R (branch r l)"
proof (cases r)
  case None
  then show ?thesis by (simp add: branch_None returns_def)
next
  case (Some p)
  obtain b s1 where "p = (b, s1)" by (cases p)
  with Some show ?thesis by (simp add: branch_Some returns_def)
qed

lemma returns_parse_value: "returns R (parse_value ext a k c s)"
  unfolding parse_value_def
  by (intro returns_if returns_branch returns_Goto)

lemmas returns_intros = returns_bind returns_if returns_Goto returns_Return returns_prod
  returns_branch returns_parse_value

lemma step_returns:
  "returns (\<lambda>e s'. l = Finish \<and> finish ext s = Some (e, s') \<or> l = Error \<and> error_fn s = Some (e, s'))
     (step ext streaming l s)"
  by (cases l; simp only: step.simps; intro returns_intros; simp)

lemma step_Return:
  "step ext streaming l s = Some (Return e s') \<Longrightarrow>
     l = Finish \<and> finish ext s = Some (e, s') \<or> l = Error \<and> error_fn s = Some (e, s')"
  using step_returns [of l ext s streaming] by (simp add: returns_def)

lemma step_Goto_progress: "step ext streaming l s = Some (Goto l' s') \<Longrightarrow> progress l s l' s'"
  using step_gotos_progress [of l s ext streaming] by (simp add: gotos_def)

lemma run_Goto: "step ext streaming l s = Some (Goto l' s') \<Longrightarrow> run ext streaming l s = run ext streaming l' s'"
  by (simp add: run.simps)

lemma run_Return: "step ext streaming l s = Some (Return e s') \<Longrightarrow> run ext streaming l s = Some (e, s')"
  by (simp add: run.simps)

lemma run_None: "step ext streaming l s = None \<Longrightarrow> run ext streaming l s = None"
  by (simp add: run.simps)

lemma steps_run:
  "steps ext streaming k l s = Some (l', s') \<Longrightarrow>
     run ext streaming l s = run ext streaming l' s'"
proof (induction k arbitrary: l s)
  case 0
  then show ?case by simp
next
  case (Suc k)
  from Suc.prems obtain l1 s1 where
    st: "step ext streaming l s = Some (Goto l1 s1)"
    and r: "steps ext streaming k l1 s1 = Some (l', s')"
    by (auto split: option.splits outcome.splits)
  from Suc.IH [OF r] run_Goto [OF st] show ?case by simp
qed

lemma reached_run:
  assumes "reached ext streaming p k = Some (l, s)"
  shows "parse_structurals ext streaming p = run ext streaming l s"
  using assms
  by (auto simp: reached_def parse_structurals_def Let_def
      split: Option.bind_splits if_splits dest: steps_run)

text \<open>
  An invariant of the machine holds at the configuration from which a run returns.
\<close>

lemma run_invariant:
  assumes "run ext streaming l s = Some (e, sf)"
    and "I l s"
    and "\<And>l s l' s'. I l s \<Longrightarrow> step ext streaming l s = Some (Goto l' s') \<Longrightarrow>
           run ext streaming l' s' = Some (e, sf) \<Longrightarrow> I l' s'"
  shows "\<exists>l0 s0. I l0 s0 \<and> step ext streaming l0 s0 = Some (Return e sf)"
  using assms
proof (induction ext streaming l s rule: run.induct)
  case (1 ext streaming l s)
  show ?case
  proof (cases "step ext streaming l s")
    case None
    with "1.prems"(1) show ?thesis by (simp add: run_None)
  next
    case (Some out)
    show ?thesis
    proof (cases out)
      case (Goto l' s')
      with Some "1.prems"(1) have r: "run ext streaming l' s' = Some (e, sf)"
        by (simp add: run_Goto)
      have "I l' s'"
        using "1.prems"(3) [OF "1.prems"(2) _ r] Some Goto by simp
      then show ?thesis
        using "1.IH" [OF Some Goto r] "1.prems"(3) by blast
    next
      case (Return e' s')
      with Some "1.prems"(1) have "e' = e" "s' = sf"
        by (simp_all add: run_Return)
      with Some Return "1.prems"(2) show ?thesis by blast
    qed
  qed
qed

lemma finish_Some:
  "finish ext s = Some (e, s') \<Longrightarrow>
     \<exists>s1. end_scope ext ROOT ROOT s = Some s1 \<and>
       (depth s1 \<noteq> 0 \<and> e = TAPE_ERROR \<and>
          s' = s1\<lparr>next_structural_index := of_nat (current_structural s1 + 1),
                  error := TAPE_ERROR\<rparr> \<or>
        depth s1 = 0 \<and> e = SUCCESS \<and>
          s' = s1\<lparr>next_structural_index := of_nat (current_structural s1 + 1)\<rparr>)"
  by (cases "end_scope ext ROOT ROOT s")
    (auto simp: finish_def end_document_def Let_def split: if_splits)

lemma error_fn_Some:
  "error_fn s = Some (e, s') \<Longrightarrow> e \<noteq> SUCCESS \<and> s' = s\<lparr>error := e\<rparr>"
  by (cases "current_char s") (auto simp: error_fn_def Let_def split: if_splits)

lemma start_Some:
  "start c s = Some (e, s') \<Longrightarrow>
     (at_end s (n_structural_indexes s) \<and> e = EMPTY \<and> s' = s\<lparr>error := EMPTY\<rparr>) \<or>
     (\<not> at_end s (n_structural_indexes s) \<and>
        (\<exists>s1. start_scope c (s\<lparr>error := UNINITIALIZED\<rparr>) = Some (e = DEPTH_ERROR, s1) \<and>
           (e = DEPTH_ERROR \<or> e = SUCCESS) \<and>
           s' = (if e = DEPTH_ERROR then s1\<lparr>error := DEPTH_ERROR\<rparr> else s1)))"
  by (cases "start_scope c (s\<lparr>error := UNINITIALIZED\<rparr>)")
    (auto simp: start_def start_document_def init_def split: if_splits)

subsection \<open>The error state\<close>

text \<open>
  C6. Whenever the machine arrives at \<^verbatim>\<open>error\<close>, it returns \<^verbatim>\<open>DEPTH_ERROR\<close>
  if the depth has reached \<open>max_depth\<close>, whatever the current byte is; otherwise the
  byte at the current structural index decides: \<^verbatim>\<open>STRING_ERROR\<close> for a quote,
  \<^verbatim>\<open>NUMBER_ERROR\<close> for a digit or a minus sign, \<^verbatim>\<open>T_ATOM_ERROR\<close>,
  \<^verbatim>\<open>F_ATOM_ERROR\<close> and \<^verbatim>\<open>N_ATOM_ERROR\<close> for \<^verbatim>\<open>t\<close>, \<^verbatim>\<open>f\<close> and
  \<^verbatim>\<open>n\<close>, and \<^verbatim>\<open>TAPE_ERROR\<close> for every other byte. The code returned is also
  stored in the error field.
\<close>

theorem error_classification:
  "(max_depth s \<le> unat (depth s) \<longrightarrow>
      run ext streaming Error s = Some (DEPTH_ERROR, s\<lparr>error := DEPTH_ERROR\<rparr>)) \<and>
   (unat (depth s) < max_depth s \<longrightarrow> current_char s = Some c \<longrightarrow>
      (\<exists>e. run ext streaming Error s = Some (e, s\<lparr>error := e\<rparr>) \<and>
         (c = 0x22 \<longrightarrow> e = STRING_ERROR) \<and>
         (c \<in> {0x30, 0x31, 0x32, 0x33, 0x34, 0x35, 0x36, 0x37, 0x38, 0x39, 0x2D}
            \<longrightarrow> e = NUMBER_ERROR) \<and>
         (c = 0x74 \<longrightarrow> e = T_ATOM_ERROR) \<and>
         (c = 0x66 \<longrightarrow> e = F_ATOM_ERROR) \<and>
         (c = 0x6E \<longrightarrow> e = N_ATOM_ERROR) \<and>
         (c \<notin> {0x22, 0x30, 0x31, 0x32, 0x33, 0x34, 0x35, 0x36, 0x37, 0x38, 0x39, 0x2D,
                0x74, 0x66, 0x6E} \<longrightarrow> e = TAPE_ERROR)))"
  by (simp add: run_Error error_fn_def is_number_start_def Let_def)

theorem error_classification_witness:
  "run example_externals False Error (at_true_depth3\<lparr>depth := 4\<rparr>) =
      Some (DEPTH_ERROR, at_true_depth3\<lparr>depth := 4, error := DEPTH_ERROR\<rparr>) \<and>
   run example_externals False Error at_true_depth3 =
      Some (T_ATOM_ERROR, at_true_depth3\<lparr>error := T_ATOM_ERROR\<rparr>)"
proof -
  have c: "current_char at_true_depth3 = Some 0x74"
    by (simp add: at_true_depth3_def example_parser_def current_char_def current_def rd_def)
  have d: "unat (depth at_true_depth3) < max_depth at_true_depth3"
    "max_depth (at_true_depth3\<lparr>depth := 4\<rparr>) \<le> unat (depth (at_true_depth3\<lparr>depth := 4\<rparr>))"
    by (simp_all add: at_true_depth3_def example_parser_def)
  from error_classification [of "at_true_depth3\<lparr>depth := 4\<rparr>" example_externals False 0] d(2)
  have "run example_externals False Error (at_true_depth3\<lparr>depth := 4\<rparr>) =
      Some (DEPTH_ERROR, at_true_depth3\<lparr>depth := 4, error := DEPTH_ERROR\<rparr>)"
    by simp
  moreover from error_classification [of at_true_depth3 example_externals False "0x74"] c d(1)
  have "run example_externals False Error at_true_depth3 =
      Some (T_ATOM_ERROR, at_true_depth3\<lparr>error := T_ATOM_ERROR\<rparr>)"
    by auto
  ultimately show ?thesis by simp
qed

subsection \<open>The error field\<close>

lemma progress_fields:
  "progress l s l' s' \<Longrightarrow>
     error s' = error s \<and> next_structural_index s' = next_structural_index s \<and>
     max_depth s' = max_depth s \<and> structural_indexes s' = structural_indexes s \<and>
     buf s' = buf s \<and> n_structural_indexes s' = n_structural_indexes s \<and>
     length (tape s') = length (tape s) \<and> next_tape_loc s \<le> next_tape_loc s'"
  by (auto simp: progress_def advanced_def frame_def)

lemma parse_structurals_Some:
  "parse_structurals ext streaming dp = Some (e, sf) \<Longrightarrow>
     \<exists>r p1. start addr_finish (structural_parser dp
               (if streaming then unat (next_structural_index dp) else 0)) = Some (r, p1) \<and>
        (if r \<noteq> SUCCESS then e = r \<and> sf = p1
         else run ext streaming Document_begin p1 = Some (e, sf))"
  by (auto simp: parse_structurals_def Let_def split: Option.bind_splits if_splits)

lemma start_fields:
  assumes "start c s = Some (e, s')"
  shows "(e = EMPTY \<or> e = DEPTH_ERROR \<or> e = SUCCESS) \<and>
     error s' = (if e = SUCCESS then UNINITIALIZED else e) \<and>
     next_structural_index s' = next_structural_index s"
proof (cases "at_end s (n_structural_indexes s)")
  case True
  with assms show ?thesis by (auto simp: start_def)
next
  case False
  with assms obtain b s1 where ss: "start_scope c (init s) = Some (b, s1)"
    and r: "(e, s') = (if b then (DEPTH_ERROR, s1\<lparr>error := DEPTH_ERROR\<rparr>) else (SUCCESS, s1))"
    by (cases "start_scope c (init s)") (auto simp: start_def start_document_def split: if_splits)
  from start_scope_frame [OF ss] have "error s1 = UNINITIALIZED"
    "next_structural_index s1 = next_structural_index s"
    by (simp_all add: frame_def init_def)
  with r show ?thesis by (cases b) auto
qed

text \<open>
  C10. After a parse that returns \<^verbatim>\<open>SUCCESS\<close> the error field of the parser is
  \<^verbatim>\<open>UNINITIALIZED\<close>, the value \<^verbatim>\<open>init\<close> gave it: \<^verbatim>\<open>finish\<close> returns
  \<^verbatim>\<open>SUCCESS\<close> without storing it. Every other code that is returned
  (\<^verbatim>\<open>EMPTY\<close>, \<^verbatim>\<open>DEPTH_ERROR\<close>, the codes of \<^verbatim>\<open>error()\<close>, the
  \<^verbatim>\<open>TAPE_ERROR\<close> of \<^verbatim>\<open>finish\<close>) has been stored in the error field.
\<close>

theorem error_field_after_parse:
  assumes "parse_structurals ext streaming dp = Some (e, sf)"
  shows "(e = SUCCESS \<longrightarrow> error sf = UNINITIALIZED) \<and> (e \<noteq> SUCCESS \<longrightarrow> error sf = e)"
proof -
  from parse_structurals_Some [OF assms] obtain r p1 where
    st: "start addr_finish (structural_parser dp
           (if streaming then unat (next_structural_index dp) else 0)) = Some (r, p1)"
    and rest: "if r \<noteq> SUCCESS then e = r \<and> sf = p1
               else run ext streaming Document_begin p1 = Some (e, sf)"
    by blast
  note sf = start_fields [OF st]
  show ?thesis
  proof (cases "r = SUCCESS")
    case False
    with rest sf show ?thesis by simp
  next
    case True
    with rest have run: "run ext streaming Document_begin p1 = Some (e, sf)" by simp
    from True sf have p1: "error p1 = UNINITIALIZED" by simp
    have "\<exists>l0 s0. error s0 = UNINITIALIZED \<and> step ext streaming l0 s0 = Some (Return e sf)"
    proof (rule run_invariant [OF run, where I = "\<lambda>l s. error s = UNINITIALIZED"])
      show "error p1 = UNINITIALIZED" by (fact p1)
    next
      fix l s l' s'
      assume "error s = UNINITIALIZED" and "step ext streaming l s = Some (Goto l' s')"
      then show "error s' = UNINITIALIZED"
        using progress_fields [OF step_Goto_progress] by simp
    qed
    then obtain l0 s0 where s0: "error s0 = UNINITIALIZED"
      and ret: "step ext streaming l0 s0 = Some (Return e sf)"
      by blast
    from step_Return [OF ret] show ?thesis
    proof
      assume "l0 = Finish \<and> finish ext s0 = Some (e, sf)"
      then show ?thesis
        using s0 by (auto dest!: finish_Some end_scope_frame simp: frame_def)
    next
      assume "l0 = Error \<and> error_fn s0 = Some (e, sf)"
      then show ?thesis
        by (auto dest!: error_fn_Some)
    qed
  qed
qed

lemma empty_object_parse:
  "map_option (\<lambda>(e, s). (e, depth s)) (parse_structurals example_externals False empty_object_doc)
     = Some (SUCCESS, 0)"
  by code_simp

lemma cut_array_parse:
  "map_option fst (parse_structurals example_externals False cut_array_doc) = Some TAPE_ERROR"
  by code_simp

theorem error_field_after_parse_witness:
  "(\<exists>s. parse_structurals example_externals False empty_object_doc = Some (SUCCESS, s) \<and>
        error s = UNINITIALIZED) \<and>
   (\<exists>s. parse_structurals example_externals False cut_array_doc = Some (TAPE_ERROR, s) \<and>
        error s = TAPE_ERROR)"
proof -
  from empty_object_parse obtain s1 where
    p1: "parse_structurals example_externals False empty_object_doc = Some (SUCCESS, s1)"
    by auto
  from cut_array_parse obtain s2 where
    p2: "parse_structurals example_externals False cut_array_doc = Some (TAPE_ERROR, s2)"
    by auto
  from error_field_after_parse [OF p1] error_field_after_parse [OF p2] p1 p2
  show ?thesis by simp
qed

subsection \<open>Finish\<close>

lemma end_scope_depth: "end_scope ext a b s = Some s' \<Longrightarrow> depth s' = depth s - 1"
  by (auto simp: end_scope_def tape_append_def tape_write_def Let_def split: Option.bind_splits)

lemma run_SUCCESS_depth:
  assumes "run ext streaming l s = Some (SUCCESS, sf)"
  shows "depth sf = 0"
proof -
  from run_invariant [OF assms, where I = "\<lambda>l s. True"]
  obtain l0 s0 where "step ext streaming l0 s0 = Some (Return SUCCESS sf)"
    by blast
  from step_Return [OF this] show ?thesis
    by (auto dest!: finish_Some error_fn_Some)
qed

text \<open>
  C4. A parse returns \<^verbatim>\<open>SUCCESS\<close> only with the depth back at 0. \<^verbatim>\<open>finish\<close>
  closes the root scope, which takes the depth down by one, and then looks at the depth:
  when it is not 0, scopes are still open, and \<^verbatim>\<open>finish\<close> returns (and stores)
  \<^verbatim>\<open>TAPE_ERROR\<close>; when it is 0 it returns \<^verbatim>\<open>SUCCESS\<close>.
\<close>

theorem success_only_at_depth_zero:
  "(parse_structurals ext streaming dp = Some (SUCCESS, sf) \<longrightarrow> depth sf = 0) \<and>
   (run ext streaming Finish s = Some (e, s') \<longrightarrow>
      depth s' = depth s - 1 \<and>
      (depth s' \<noteq> 0 \<longrightarrow> e = TAPE_ERROR \<and> error s' = TAPE_ERROR) \<and>
      (depth s' = 0 \<longrightarrow> e = SUCCESS))"
proof (intro conjI impI)
  assume "parse_structurals ext streaming dp = Some (SUCCESS, sf)"
  from parse_structurals_Some [OF this] obtain p1 where
    "run ext streaming Document_begin p1 = Some (SUCCESS, sf)"
    by (auto split: if_splits)
  then show "depth sf = 0" by (rule run_SUCCESS_depth)
next
  assume "run ext streaming Finish s = Some (e, s')"
  then have f: "finish ext s = Some (e, s')" by (simp add: run_Finish)
  from finish_Some [OF f] show "depth s' = depth s - 1"
    by (auto dest!: end_scope_depth)
  from finish_Some [OF f] show "depth s' = 0 \<Longrightarrow> e = SUCCESS"
    by auto
  assume "depth s' \<noteq> 0"
  with finish_Some [OF f] show "e = TAPE_ERROR" "error s' = TAPE_ERROR"
    by auto
qed

lemma finish_in_array:
  "map_option (\<lambda>(e, s). (e, depth s, error s, next_structural_index s))
     (run example_externals False Finish at_true_depth3) = Some (TAPE_ERROR, 1, TAPE_ERROR, 2)"
  by code_simp

theorem success_only_at_depth_zero_witness:
  "(\<exists>s. parse_structurals example_externals False empty_object_doc = Some (SUCCESS, s) \<and>
        depth s = 0) \<and>
   (\<exists>s. run example_externals False Finish at_true_depth3 = Some (TAPE_ERROR, s) \<and>
        depth s = 1 \<and> error s = TAPE_ERROR)"
proof -
  from empty_object_parse obtain s1 where
    p1: "parse_structurals example_externals False empty_object_doc = Some (SUCCESS, s1)"
    by auto
  from finish_in_array obtain s2 where
    p2: "run example_externals False Finish at_true_depth3 = Some (TAPE_ERROR, s2)"
    and d2: "depth s2 = 1"
    by auto
  from success_only_at_depth_zero [of example_externals False empty_object_doc s1
      at_true_depth3 TAPE_ERROR s2] p1 p2 d2
  show ?thesis by simp
qed

subsection \<open>The index of the next structural\<close>

lemma run_next_structural_index:
  assumes "run ext streaming l s = Some (e, sf)"
  shows "(\<exists>s0. finish ext s0 = Some (e, sf) \<and> next_structural_index s0 = next_structural_index s) \<or>
     (e \<noteq> SUCCESS \<and> next_structural_index sf = next_structural_index s)"
proof -
  have "\<exists>l0 s0. next_structural_index s0 = next_structural_index s \<and>
      step ext streaming l0 s0 = Some (Return e sf)"
  proof (rule run_invariant [OF assms,
        where I = "\<lambda>l s'. next_structural_index s' = next_structural_index s"])
    show "next_structural_index s = next_structural_index s" by simp
  next
    fix l s1 l' s'
    assume "next_structural_index s1 = next_structural_index s"
      and "step ext streaming l s1 = Some (Goto l' s')"
    then show "next_structural_index s' = next_structural_index s"
      using progress_fields [OF step_Goto_progress] by simp
  qed
  then obtain l0 s0 where s0: "next_structural_index s0 = next_structural_index s"
    and ret: "step ext streaming l0 s0 = Some (Return e sf)"
    by blast
  from step_Return [OF ret] s0 show ?thesis
    by (auto dest!: error_fn_Some)
qed

text \<open>
  C9. \<^verbatim>\<open>finish\<close> stores one past the current structural index in
  \<open>next_structural_index\<close> before it looks at the depth, so the field is advanced when
  \<^verbatim>\<open>finish\<close> returns \<^verbatim>\<open>TAPE_ERROR\<close> as well as when it returns \<^verbatim>\<open>SUCCESS\<close>.
  Nothing else stores into the field: not \<^verbatim>\<open>error()\<close>, not \<^verbatim>\<open>start\<close>, no step
  that continues. So a parse either returns through \<^verbatim>\<open>finish\<close>, reached with the
  field as it was, or it returns an error with the field as it was.
\<close>

theorem next_structural_index_assigned_by_finish:
  "(finish ext s = Some (e, s') \<longrightarrow>
      (e = SUCCESS \<or> e = TAPE_ERROR) \<and>
      next_structural_index s' = of_nat (current_structural s + 1)) \<and>
   (error_fn s = Some (e, s') \<longrightarrow> next_structural_index s' = next_structural_index s) \<and>
   (start c s = Some (e, s') \<longrightarrow> next_structural_index s' = next_structural_index s) \<and>
   (step ext streaming l s = Some (Goto l' s') \<longrightarrow>
      next_structural_index s' = next_structural_index s) \<and>
   (parse_structurals ext streaming dp = Some (e, sf) \<longrightarrow>
      (\<exists>s0. finish ext s0 = Some (e, sf) \<and> next_structural_index s0 = next_structural_index dp) \<or>
      (e \<noteq> SUCCESS \<and> next_structural_index sf = next_structural_index dp))"
proof (intro conjI impI)
  assume f: "finish ext s = Some (e, s')"
  from finish_Some [OF f] show "e = SUCCESS \<or> e = TAPE_ERROR" by auto
  from finish_Some [OF f] show "next_structural_index s' = of_nat (current_structural s + 1)"
    by (auto dest!: end_scope_frame simp: frame_def)
next
  assume "error_fn s = Some (e, s')"
  then show "next_structural_index s' = next_structural_index s"
    by (auto dest!: error_fn_Some)
next
  assume "start c s = Some (e, s')"
  then show "next_structural_index s' = next_structural_index s"
    by (simp add: start_fields)
next
  assume "step ext streaming l s = Some (Goto l' s')"
  then show "next_structural_index s' = next_structural_index s"
    using progress_fields [OF step_Goto_progress] by simp
next
  assume p: "parse_structurals ext streaming dp = Some (e, sf)"
  from parse_structurals_Some [OF p] obtain r p1 where
    st: "start addr_finish (structural_parser dp
           (if streaming then unat (next_structural_index dp) else 0)) = Some (r, p1)"
    and rest: "if r \<noteq> SUCCESS then e = r \<and> sf = p1
               else run ext streaming Document_begin p1 = Some (e, sf)"
    by blast
  from start_fields [OF st] have n: "next_structural_index p1 = next_structural_index dp"
    by (simp add: structural_parser_def)
  show "(\<exists>s0. finish ext s0 = Some (e, sf) \<and> next_structural_index s0 = next_structural_index dp) \<or>
      (e \<noteq> SUCCESS \<and> next_structural_index sf = next_structural_index dp)"
  proof (cases "r = SUCCESS")
    case True
    with rest have "run ext streaming Document_begin p1 = Some (e, sf)" by simp
    from run_next_structural_index [OF this] n show ?thesis by simp
  next
    case False
    with rest n show ?thesis by simp
  qed
qed

lemma cut_array_next_structural_index:
  "map_option (\<lambda>(e, s). (e, next_structural_index s))
     (parse_structurals example_externals False (cut_array_doc\<lparr>next_structural_index := 7\<rparr>))
     = Some (TAPE_ERROR, 7)"
  by code_simp

theorem next_structural_index_assigned_by_finish_witness:
  "(\<exists>s. finish example_externals at_true_depth3 = Some (TAPE_ERROR, s) \<and>
        next_structural_index at_true_depth3 = 0 \<and> next_structural_index s = 2) \<and>
   (\<exists>s. parse_structurals example_externals False (cut_array_doc\<lparr>next_structural_index := 7\<rparr>)
          = Some (TAPE_ERROR, s) \<and> next_structural_index s = 7)"
proof -
  from finish_in_array obtain s2 where
    p2: "finish example_externals at_true_depth3 = Some (TAPE_ERROR, s2)"
    by (auto simp: run_Finish)
  have c: "current_structural at_true_depth3 = 1" "next_structural_index at_true_depth3 = 0"
    by (simp_all add: at_true_depth3_def example_parser_def)
  from next_structural_index_assigned_by_finish
    [where ext = example_externals and s = at_true_depth3 and e = TAPE_ERROR and s' = s2] p2 c
  have "next_structural_index s2 = 2" by simp
  with p2 c cut_array_next_structural_index show ?thesis by auto
qed

subsection \<open>Start\<close>

lemma scope_descriptor_updates:
  "(d :: scope_descriptor)\<lparr>tape_index := a, count := b\<rparr> = \<lparr>tape_index = a, count = b\<rparr>"
  by (cases d) simp

lemma start_scope_eq:
  assumes "unat (depth s) < length (containing_scope s)"
    and "unat (depth s) < length (ret_address s)"
  shows "start_scope c s =
     Some (max_depth s \<le> unat (depth s + 1),
       s\<lparr>containing_scope := (containing_scope s)
             [unat (depth s) := \<lparr>tape_index = next_tape_index s, count = 0\<rparr>],
         next_tape_loc := next_tape_loc s + 1,
         ret_address := (ret_address s)[unat (depth s) := c],
         depth := depth s + 1\<rparr>)"
  using assms
  by (simp add: start_scope_def modify_def wr_def tape_skip_def Let_def scope_descriptor_updates)

lemma start_scope_None:
  "\<not> (unat (depth s) < length (containing_scope s) \<and> unat (depth s) < length (ret_address s)) \<Longrightarrow>
     start_scope c s = None"
  by (auto simp: start_scope_def modify_def wr_def tape_skip_def Let_def)

text \<open>
  C8. When no structural index is left at the start position, which is the case of an
  empty input, \<^verbatim>\<open>parse_structurals\<close> returns \<^verbatim>\<open>EMPTY\<close> (and stores it).
  Otherwise \<^verbatim>\<open>start\<close> initialises the error field and pushes the root scope: it
  records the next tape index with a count of 0 and the continuation \<^verbatim>\<open>finish\<close> at
  the current depth, reserves a tape word and increments the depth; it returns
  \<^verbatim>\<open>SUCCESS\<close>, or \<^verbatim>\<open>DEPTH_ERROR\<close> (stored as well) when the new depth is not
  below \<open>max_depth\<close>. The scope stack and the continuation stack must have room at the
  current depth.
\<close>

theorem start_empty_or_root_scope:
  "(at_end (structural_parser dp (if streaming then unat (next_structural_index dp) else 0))
        (n_structural_indexes dp) \<longrightarrow>
      parse_structurals ext streaming dp =
        Some (EMPTY, (structural_parser dp
          (if streaming then unat (next_structural_index dp) else 0))\<lparr>error := EMPTY\<rparr>)) \<and>
   (n_structural_indexes dp = 0 \<longrightarrow>
      map_option fst (parse_structurals ext streaming dp) = Some EMPTY) \<and>
   (\<not> at_end s (n_structural_indexes s) \<longrightarrow>
      unat (depth s) < length (containing_scope s) \<longrightarrow>
      unat (depth s) < length (ret_address s) \<longrightarrow>
      start addr_finish s =
        (let s1 = s\<lparr>error := UNINITIALIZED,
                   containing_scope := (containing_scope s)
                     [unat (depth s) := \<lparr>tape_index = next_tape_index s, count = 0\<rparr>],
                   next_tape_loc := next_tape_loc s + 1,
                   ret_address := (ret_address s)[unat (depth s) := addr_finish],
                   depth := depth s + 1\<rparr>
         in if max_depth s \<le> unat (depth s + 1)
            then Some (DEPTH_ERROR, s1\<lparr>error := DEPTH_ERROR\<rparr>)
            else Some (SUCCESS, s1)))"
proof (intro conjI impI)
  assume "at_end (structural_parser dp (if streaming then unat (next_structural_index dp) else 0))
        (n_structural_indexes dp)"
  then show "parse_structurals ext streaming dp =
        Some (EMPTY, (structural_parser dp
          (if streaming then unat (next_structural_index dp) else 0))\<lparr>error := EMPTY\<rparr>)"
    by (simp add: parse_structurals_def start_def structural_parser_def Let_def)
next
  assume "n_structural_indexes dp = 0"
  then show "map_option fst (parse_structurals ext streaming dp) = Some EMPTY"
    by (simp add: parse_structurals_def start_def structural_parser_def Let_def at_end_def)
next
  assume "\<not> at_end s (n_structural_indexes s)"
    and "unat (depth s) < length (containing_scope s)"
    and "unat (depth s) < length (ret_address s)"
  then show "start addr_finish s =
        (let s1 = s\<lparr>error := UNINITIALIZED,
                   containing_scope := (containing_scope s)
                     [unat (depth s) := \<lparr>tape_index = next_tape_index s, count = 0\<rparr>],
                   next_tape_loc := next_tape_loc s + 1,
                   ret_address := (ret_address s)[unat (depth s) := addr_finish],
                   depth := depth s + 1\<rparr>
         in if max_depth s \<le> unat (depth s + 1)
            then Some (DEPTH_ERROR, s1\<lparr>error := DEPTH_ERROR\<rparr>)
            else Some (SUCCESS, s1))"
    by (simp add: start_def start_document_def init_def start_scope_eq next_tape_index_def Let_def)
qed

text \<open>The empty input, and \<^verbatim>\<open>{}\<close> with room for one scope only.\<close>

definition empty_doc :: parser_state where
  "empty_doc = example_parser [0x20, 0x20] 0 [0, 0] 0 4 4 8"

theorem start_empty_or_root_scope_witness:
  "parse_structurals example_externals False empty_doc = Some (EMPTY, empty_doc\<lparr>error := EMPTY\<rparr>) \<and>
   map_option fst (start addr_finish empty_object_doc) = Some SUCCESS \<and>
   map_option fst (start addr_finish (empty_object_doc\<lparr>max_depth := 1\<rparr>)) = Some DEPTH_ERROR"
proof -
  have e: "structural_parser empty_doc 0 = empty_doc" "n_structural_indexes empty_doc = 0"
    "at_end empty_doc 0"
    by (simp_all add: structural_parser_def empty_doc_def example_parser_def at_end_def)
  have o: "\<not> at_end empty_object_doc (n_structural_indexes empty_object_doc)"
    "unat (depth empty_object_doc) < length (containing_scope empty_object_doc)"
    "unat (depth empty_object_doc) < length (ret_address empty_object_doc)"
    "max_depth empty_object_doc = 4" "depth empty_object_doc = 0"
    by (simp_all add: empty_object_doc_def example_parser_def at_end_def)
  from start_empty_or_root_scope [of empty_doc False example_externals empty_object_doc] e o
  have 1: "parse_structurals example_externals False empty_doc = Some (EMPTY, empty_doc\<lparr>error := EMPTY\<rparr>)"
    and 2: "map_option fst (start addr_finish empty_object_doc) = Some SUCCESS"
    by (simp_all add: Let_def)
  from start_empty_or_root_scope [of empty_doc False example_externals
      "empty_object_doc\<lparr>max_depth := 1\<rparr>"] o
  have 3: "map_option fst (start addr_finish (empty_object_doc\<lparr>max_depth := 1\<rparr>)) = Some DEPTH_ERROR"
    by (simp add: Let_def at_end_def)
  from 1 2 3 show ?thesis by simp
qed

subsection \<open>Tape words\<close>

lemma mask56: "(0x00FFFFFFFFFFFFFF :: 64 word) = mask 56"
  by (simp add: mask_eq_exp_minus_1)

lemma tape_word_take_bit:
  "tape_word ext v t = push_bit 56 (ucast (tag_code ext t)) OR take_bit 56 v"
  by (simp add: tape_word_def mask56 take_bit_eq_mask)

lemma saturated_bits:
  fixes c :: "32 word"
  assumes "c \<le> 0xFFFFFF"
  shows "take_bit 24 c = c"
proof -
  from assms have "c < 2 ^ 24" by (simp add: word_less_nat_alt word_le_nat_alt)
  then show ?thesis by (simp add: take_bit_eq_mask less_mask_eq)
qed

lemma opener_count_bits:
  fixes nti c :: "32 word"
  assumes "c \<le> 0xFFFFFF"
  shows "take_bit 24 (drop_bit 32 (tape_word ext (ucast nti OR push_bit 32 (ucast c)) t)) = ucast c"
proof -
  have "bit c n \<Longrightarrow> n < 24" for n
    using saturated_bits [OF assms] by (metis bit_take_bit_iff)
  then show ?thesis
    unfolding tape_word_take_bit
    by (intro bit_word_eqI) (auto simp: bit_simps dest: bit_imp_le_length)
qed



lemma tape_word_tag:
  "(ucast (drop_bit 56 (tape_word ext v t)) :: 8 word) = tag_code ext t"
  unfolding tape_word_take_bit
  by (intro bit_word_eqI) (auto simp: bit_simps dest: bit_imp_le_length)


subsection \<open>Closing a scope\<close>

lemma end_scope_Some:
  assumes "end_scope ext st en s = Some s'"
  shows "unat (depth s - 1) < length (containing_scope s) \<and>
     next_tape_loc s < length (tape s) \<and>
     unat (tape_index (containing_scope s ! unat (depth s - 1))) < length (tape s) \<and>
     tape s' = (tape s)
       [next_tape_loc s :=
          tape_word ext (ucast (tape_index (containing_scope s ! unat (depth s - 1)))) en,
        unat (tape_index (containing_scope s ! unat (depth s - 1))) :=
          tape_word ext
            (ucast (of_nat (next_tape_loc s + 1) :: 32 word) OR
             push_bit 32 (ucast (if count (containing_scope s ! unat (depth s - 1)) > 0xFFFFFF
                          then 0xFFFFFF else count (containing_scope s ! unat (depth s - 1)))))
            st] \<and>
     next_tape_loc s' = next_tape_loc s + 1 \<and> depth s' = depth s - 1 \<and>
     containing_scope s' = containing_scope s \<and> ret_address s' = ret_address s \<and>
     string_buf s' = string_buf s \<and> current_string_buf_loc s' = current_string_buf_loc s"
  using assms
  by (auto simp: end_scope_def tape_append_def tape_write_def rd_def wr_def Let_def
      next_tape_index_def split: Option.bind_splits if_splits)

lemma increment_count_Some:
  assumes "increment_count s = Some s'"
  shows "unat (depth s - 1) < length (containing_scope s) \<and>
     s' = s\<lparr>containing_scope := (containing_scope s)
            [unat (depth s - 1) := (containing_scope s ! unat (depth s - 1))
               \<lparr>count := count (containing_scope s ! unat (depth s - 1)) + 1\<rparr>]\<rparr>"
  using assms
  by (auto simp: increment_count_def modify_def split: Option.bind_splits if_splits)

text \<open>
  \<^verbatim>\<open>end_scope\<close> stores the counter of the scope it closes in bits 32 to 55 of the
  opener word it back-patches: the counter itself when it is below \<open>2 ^ 24\<close>, and
  \<open>0xFFFFFF\<close> otherwise.
\<close>

lemma end_scope_count_bits:
  assumes "end_scope ext st en s = Some s'"
  shows "unat (take_bit 24 (drop_bit 32
            (tape s' ! unat (tape_index (containing_scope s ! unat (depth s - 1)))))) =
         (if unat (count (containing_scope s ! unat (depth s - 1))) < 2 ^ 24
          then unat (count (containing_scope s ! unat (depth s - 1))) else 0xFFFFFF)"
proof -
  define sc where "sc = containing_scope s ! unat (depth s - 1)"
  define c where "c = (if count sc > 0xFFFFFF then 0xFFFFFF else count sc)"
  have c: "c \<le> 0xFFFFFF"
    by (simp add: c_def not_less)
  from end_scope_Some [OF assms]
  have "tape s' ! unat (tape_index sc) =
      tape_word ext (ucast (of_nat (next_tape_loc s + 1) :: 32 word) OR push_bit 32 (ucast c)) st"
    by (simp add: sc_def c_def)
  then have "take_bit 24 (drop_bit 32 (tape s' ! unat (tape_index sc))) = (ucast c :: 64 word)"
    by (simp add: opener_count_bits [OF c])
  moreover have "unat (ucast c :: 64 word) = unat c"
    by transfer simp
  moreover have "unat c = (if unat (count sc) < 2 ^ 24 then unat (count sc) else 0xFFFFFF)"
    by (auto simp: c_def word_less_nat_alt)
  ultimately show ?thesis
    by (simp add: sc_def)
qed

subsection \<open>Strings\<close>

text \<open>The number that four bytes hold, least significant byte first.\<close>

fun le_value :: "8 word list \<Rightarrow> nat" where
  "le_value [] = 0"
| "le_value (b # bs) = unat b + 256 * le_value bs"

lemma unat_byte: "unat (ucast (w :: 32 word) :: 8 word) = unat w mod 256"
  by transfer (simp add: take_bit_eq_mod nat_mod_distrib)

lemma unat_drop: "unat (drop_bit k (w :: 32 word)) = unat w div 2 ^ k"
  unfolding unat_drop_bit_eq by (rule drop_bit_eq_div)

lemma four_bytes:
  fixes n :: nat
  assumes "n < 2 ^ 32"
  shows "n mod 256 + 256 * (n div 2 ^ 8 mod 256 + 256 * (n div 2 ^ 16 mod 256 +
           256 * (n div 2 ^ 24 mod 256 + 256 * 0))) = n"
proof -
  define x1 where "x1 = n div 256"
  define x2 where "x2 = x1 div 256"
  define x3 where "x3 = x2 div 256"
  have "n div (256 * 256) = x2" "n div (256 * 256 * 256) = x3"
    by (simp_all only: div_mult2_eq x1_def x2_def x3_def)
  then have d: "n div 2 ^ 8 = x1" "n div 2 ^ 16 = x2" "n div 2 ^ 24 = x3"
    by (simp_all add: x1_def)
  from assms have "x3 < 256"
    unfolding d(3) [symmetric] by (simp add: less_mult_imp_div_less)
  then have "x3 mod 256 + 256 * 0 = x3" by simp
  moreover have "x2 mod 256 + 256 * x3 = x2" "x1 mod 256 + 256 * x2 = x1"
    "n mod 256 + 256 * x1 = n"
    by (simp_all only: x1_def x2_def x3_def mod_mult_div_eq)
  ultimately show ?thesis
    by (simp only: d)
qed

lemma le_value_le_bytes: "le_value (le_bytes w) = unat w"
proof -
  have "unat w < 2 ^ 32" using unsigned_less [of w] by simp
  from four_bytes [OF this] show ?thesis
    by (simp only: le_bytes_def le_value.simps unat_byte unat_drop)
qed

lemma length_le_bytes: "length (le_bytes w) = 4"
  by (simp add: le_bytes_def)

lemma wr_seq_Some:
  "wr_seq xs i vs = Some ys \<Longrightarrow>
     i + length vs \<le> length xs \<and> ys = take i xs @ vs @ drop (i + length vs) xs"
  by (auto simp: wr_seq_def split: if_splits)

lemma string_payload:
  "unat (take_bit 56 (tape_word ext (of_nat off) t)) = off mod 2 ^ 56"
proof -
  have "take_bit 56 (tape_word ext (of_nat off) t) = take_bit 56 (of_nat off :: 64 word)"
    unfolding tape_word_take_bit
    by (intro bit_word_eqI) (auto simp: bit_simps)
  also have "unat \<dots> = off mod 2 ^ 56"
  proof -
    have "(2::nat) ^ 56 dvd 2 ^ 64"
      by (simp add: le_imp_power_dvd)
    then have "off mod 2 ^ 64 mod 2 ^ 56 = off mod 2 ^ 56"
      by (rule mod_mod_cancel)
    moreover have "unat (take_bit 56 (of_nat off :: 64 word)) =
        take_bit 56 (unat (of_nat off :: 64 word))"
      by (rule unsigned_take_bit_eq)
    ultimately show ?thesis
      by (simp only: take_bit_eq_mod unat_of_nat) simp
  qed
  finally show ?thesis .
qed

lemma parse_string_accepts:
  assumes "parse_string ext s = Some (False, s')"
  shows "\<exists>src body sb.
     current s = Some src \<and> string_decoder ext (buf s) src = (body, True) \<and>
     next_tape_loc s < length (tape s) \<and>
     tape s' = (tape s)[next_tape_loc s := tape_word ext (of_nat (current_string_buf_loc s)) STRING] \<and>
     next_tape_loc s' = next_tape_loc s + 1 \<and>
     current_string_buf_loc s + 4 + length body < length (string_buf s) \<and>
     sb = take (current_string_buf_loc s + 4) (string_buf s) @ body @
            drop (current_string_buf_loc s + 4 + length body) (string_buf s) \<and>
     string_buf s' = (take (current_string_buf_loc s) sb @
          le_bytes (of_nat (length body)) @ drop (current_string_buf_loc s + 4) sb)
          [current_string_buf_loc s + 4 + length body := 0] \<and>
     current_string_buf_loc s' = current_string_buf_loc s + 4 + length body + 1"
  using assms
  by (auto simp: parse_string_def on_start_string_def on_end_string_def tape_append_def
      current_def wr_def Let_def length_le_bytes
      split: Option.bind_splits if_splits prod.splits dest!: wr_seq_Some)


lemma record_at:
  fixes body :: "'a list" and z :: 'a
  assumes "length p = off" and "length le = 4" and "t \<noteq> []"
  defines "xs \<equiv> (p @ le @ body @ t)[off + 4 + length body := z]"
  shows "take 4 (drop off xs) = le"
    and "take (length body) (drop (off + 4) xs) = body"
    and "xs ! (off + 4 + length body) = z"
proof -
  have xs: "xs = p @ le @ body @ t[0 := z]"
    using assms(1,2) by (simp add: xs_def list_update_append)
  show "take 4 (drop off xs) = le"
    using assms(1,2) by (simp add: xs)
  show "take (length body) (drop (off + 4) xs) = body"
    using assms(1,2) by (simp add: xs)
  show "xs ! (off + 4 + length body) = z"
    using assms(1,2,3) by (simp add: xs nth_append)
qed

lemma string_record:
  fixes SB body :: "8 word list"
  assumes "off + 4 + length body < length SB" and "length le = 4"
  defines "sb \<equiv> take (off + 4) SB @ body @ drop (off + 4 + length body) SB"
  defines "sb2 \<equiv> (take off sb @ le @ drop (off + 4) sb)[off + 4 + length body := 0]"
  shows "take 4 (drop off sb2) = le"
    and "take (length body) (drop (off + 4) sb2) = body"
    and "sb2 ! (off + 4 + length body) = 0"
    and "length sb2 = length SB"
proof -
  have l: "length sb = length SB"
    using assms(1) by (simp add: sb_def)
  have p: "length (take off sb) = off"
    using assms(1) by (simp add: l)
  have r: "drop (off + 4) sb = body @ drop (off + 4 + length body) SB"
    using assms(1) by (simp add: sb_def)
  have t: "drop (off + 4 + length body) SB \<noteq> []"
    using assms(1) by simp
  note rec = record_at [OF p assms(2) t, of body 0]
  show "take 4 (drop off sb2) = le"
    "take (length body) (drop (off + 4) sb2) = body"
    "sb2 ! (off + 4 + length body) = 0"
    unfolding sb2_def r by (rule rec)+
  show "length sb2 = length SB"
    using assms(1) by (simp add: sb2_def l assms(2))
qed

text \<open>
  The bytes the decoder stores for the string at the cursor, whatever its answer.
\<close>

definition string_body :: "externals \<Rightarrow> parser_state \<Rightarrow> 8 word list" where
  "string_body ext s =
     (case current s of None \<Rightarrow> [] | Some src \<Rightarrow> fst (string_decoder ext (buf s) src))"

text \<open>
  Without a bound on the string: the payload is the offset modulo \<open>2 ^ 56\<close>, the four
  bytes hold the length of the body modulo \<open>2 ^ 32\<close>.
\<close>

lemma string_record_written:
  assumes "parse_string ext s = Some (False, s')"
  shows "\<exists>src. current s = Some src \<and>
     string_decoder ext (buf s) src = (string_body ext s, True) \<and>
     ucast (drop_bit 56 (tape s' ! next_tape_loc s)) = tag_code ext STRING \<and>
     unat (take_bit 56 (tape s' ! next_tape_loc s)) = current_string_buf_loc s mod 2 ^ 56 \<and>
     current_string_buf_loc s + 4 + length (string_body ext s) < length (string_buf s') \<and>
     le_value (take 4 (drop (current_string_buf_loc s) (string_buf s'))) =
       length (string_body ext s) mod 2 ^ 32 \<and>
     take (length (string_body ext s)) (drop (current_string_buf_loc s + 4) (string_buf s')) =
       string_body ext s \<and>
     string_buf s' ! (current_string_buf_loc s + 4 + length (string_body ext s)) = 0 \<and>
     current_string_buf_loc s' = current_string_buf_loc s + 4 + length (string_body ext s) + 1"
proof -
  from parse_string_accepts [OF assms] obtain src body sb where
    src: "current s = Some src" "string_decoder ext (buf s) src = (body, True)"
    and tp: "next_tape_loc s < length (tape s)"
      "tape s' = (tape s)[next_tape_loc s := tape_word ext (of_nat (current_string_buf_loc s)) STRING]"
    and room: "current_string_buf_loc s + 4 + length body < length (string_buf s)"
    and sb: "sb = take (current_string_buf_loc s + 4) (string_buf s) @ body @
            drop (current_string_buf_loc s + 4 + length body) (string_buf s)"
      "string_buf s' = (take (current_string_buf_loc s) sb @
          le_bytes (of_nat (length body)) @ drop (current_string_buf_loc s + 4) sb)
          [current_string_buf_loc s + 4 + length body := 0]"
    and loc: "current_string_buf_loc s' = current_string_buf_loc s + 4 + length body + 1"
    by blast
  have body: "string_body ext s = body"
    using src by (simp add: string_body_def)
  note rec = string_record [OF room length_le_bytes [of "of_nat (length body)"],
      folded sb(1), folded sb(2)]
  have payload: "unat (take_bit 56 (tape s' ! next_tape_loc s)) = current_string_buf_loc s mod 2 ^ 56"
    using tp by (simp add: string_payload)
  have tag: "ucast (drop_bit 56 (tape s' ! next_tape_loc s)) = tag_code ext STRING"
    using tp by (simp add: tape_word_tag)
  have "le_value (take 4 (drop (current_string_buf_loc s) (string_buf s'))) =
      unat (of_nat (length body) :: 32 word)"
    by (simp only: rec(1) le_value_le_bytes)
  also have "\<dots> = length body mod 2 ^ 32"
    by (simp add: unat_of_nat)
  finally have len: "le_value (take 4 (drop (current_string_buf_loc s) (string_buf s'))) =
      length body mod 2 ^ 32" .
  from src payload tag len rec(2,3,4) room loc show ?thesis
    unfolding body by simp
qed

text \<open>
  C2. When \<^verbatim>\<open>parse_string\<close> accepts a string, the word it appends to the tape has
  the tag \<^verbatim>\<open>STRING\<close> and, as payload, the offset in the string buffer at which
  the cursor stood. At that offset the buffer holds four bytes that are the length of the
  decoded body, least significant byte first, then the body, then a NUL byte, which the
  length does not count; the cursor is moved to just past the NUL. The offset is one that
  the 56 bits of a payload hold, and the length of the body one that 32 bits hold.
\<close>

theorem string_buffer_layout:
  assumes "parse_string ext s = Some (False, s')"
    and "current_string_buf_loc s < 2 ^ 56"
    and "length (string_body ext s) < 2 ^ 32"
  shows "\<exists>src. current s = Some src \<and>
     string_decoder ext (buf s) src = (string_body ext s, True) \<and>
     ucast (drop_bit 56 (tape s' ! next_tape_loc s)) = tag_code ext STRING \<and>
     unat (take_bit 56 (tape s' ! next_tape_loc s)) = current_string_buf_loc s \<and>
     current_string_buf_loc s + 4 + length (string_body ext s) < length (string_buf s') \<and>
     le_value (take 4 (drop (current_string_buf_loc s) (string_buf s'))) =
       length (string_body ext s) \<and>
     take (length (string_body ext s)) (drop (current_string_buf_loc s + 4) (string_buf s')) =
       string_body ext s \<and>
     string_buf s' ! (current_string_buf_loc s + 4 + length (string_body ext s)) = 0 \<and>
     current_string_buf_loc s' = current_string_buf_loc s + 4 + length (string_body ext s) + 1"
  using string_record_written [OF assms(1)] assms(2,3) by simp

text \<open>The document \<^verbatim>\<open>"ab"\<close>.\<close>

definition string_doc :: parser_state where
  "string_doc = example_parser [0x22, 0x61, 0x62, 0x22, 0x20, 0x20] 4 [0, 4, 0] 1 4 4 8"

lemma string_doc_parse:
  "map_option (\<lambda>(failed, s). (failed, string_buf s, current_string_buf_loc s))
     (parse_string example_externals string_doc)
     = Some (False, [2, 0, 0, 0, 0x61, 0x62, 0, 0], 7)"
  by code_simp

lemma string_doc_body: "string_body example_externals string_doc = [0x61, 0x62]"
  by code_simp

theorem string_buffer_layout_witness:
  "\<exists>s'. parse_string example_externals string_doc = Some (False, s') \<and>
     current_string_buf_loc string_doc < 2 ^ 56 \<and>
     length (string_body example_externals string_doc) < 2 ^ 32 \<and>
     unat (take_bit 56 (tape s' ! 0)) = 0 \<and>
     le_value (take 4 (string_buf s')) = 2 \<and>
     take 2 (drop 4 (string_buf s')) = [0x61, 0x62] \<and>
     string_buf s' ! 6 = 0 \<and> current_string_buf_loc s' = 7"
proof -
  from string_doc_parse obtain s' where
    p: "parse_string example_externals string_doc = Some (False, s')"
    and sb: "string_buf s' = [2, 0, 0, 0, 0x61, 0x62, 0, 0]"
    and loc: "current_string_buf_loc s' = 7"
    by auto
  have b: "length (string_body example_externals string_doc) < 2 ^ 32"
    by (simp add: string_doc_body)
  have l: "current_string_buf_loc string_doc < 2 ^ 56"
    "next_tape_loc string_doc = 0" "current_string_buf_loc string_doc = 0"
    by (simp_all add: string_doc_def example_parser_def)
  from string_buffer_layout [OF p l(1) b] l(2,3)
  have "unat (take_bit 56 (tape s' ! 0)) = 0"
    by auto
  with p sb loc l(1) b show ?thesis
    by simp
qed

subsection \<open>Value handlers only append\<close>

text \<open>
  \<open>appends s s'\<close>: within the frame, with the depth, the scope stack and the
  continuation stack as they were, and the tape as it was below the cursor of \<open>s\<close>.
  The handlers of strings, numbers and atoms do no more than that.
\<close>

definition appends :: "parser_state \<Rightarrow> parser_state \<Rightarrow> bool" where
  "appends s s' \<longleftrightarrow>
     frame s s' \<and> depth s' = depth s \<and> containing_scope s' = containing_scope s \<and>
     ret_address s' = ret_address s \<and>
     take (next_tape_loc s) (tape s') = take (next_tape_loc s) (tape s)"

lemma appends_refl: "appends s s"
  by (simp add: appends_def frame_refl)

lemma tape_append_appends: "tape_append ext v t s = Some s' \<Longrightarrow> appends s s'"
  by (frule tape_append_frame)
    (auto simp: appends_def tape_append_def wr_def split: Option.bind_splits if_splits)

lemma tape_append_raw_appends: "tape_append_raw ws s = Some s' \<Longrightarrow> appends s s'"
  by (frule tape_append_raw_frame)
    (auto simp: appends_def tape_append_raw_def wr_seq_def split: Option.bind_splits if_splits)

lemma parse_string_appends: "parse_string ext s = Some (b, s') \<Longrightarrow> appends s s'"
  by (auto simp: parse_string_def on_start_string_def on_end_string_def Let_def
      appends_def frame_def
      split: Option.bind_splits if_splits prod.splits
      dest!: tape_append_appends wr_seq_length wr_length)

lemma parse_number_at_appends: "parse_number_at ext bf i s = Some (b, s') \<Longrightarrow> appends s s'"
  by (auto simp: parse_number_at_def Let_def split: Option.bind_splits prod.splits
      dest!: tape_append_raw_appends)

lemma parse_number_appends: "parse_number ext s = Some (b, s') \<Longrightarrow> appends s s'"
  by (auto simp: parse_number_def split: Option.bind_splits dest!: parse_number_at_appends)

lemma parse_root_number_appends: "parse_root_number ext s = Some (b, s') \<Longrightarrow> appends s s'"
  by (auto simp: parse_root_number_def Let_def appends_refl split: Option.bind_splits if_splits
      dest!: parse_number_at_appends)

lemma atoms_appends:
  "parse_true_atom ext s = Some (b, s') \<Longrightarrow> appends s s'"
  "parse_false_atom ext s = Some (b, s') \<Longrightarrow> appends s s'"
  "parse_null_atom ext s = Some (b, s') \<Longrightarrow> appends s s'"
  "parse_root_true_atom ext s = Some (b, s') \<Longrightarrow> appends s s'"
  "parse_root_false_atom ext s = Some (b, s') \<Longrightarrow> appends s s'"
  "parse_root_null_atom ext s = Some (b, s') \<Longrightarrow> appends s s'"
  unfolding parse_true_atom_def parse_false_atom_def parse_null_atom_def
    parse_root_true_atom_def parse_root_false_atom_def parse_root_null_atom_def
  by (auto split: Option.bind_splits if_splits dest!: tape_append_appends simp: appends_refl)

lemmas handlers_append = parse_string_appends parse_number_appends parse_root_number_appends
  atoms_appends

text \<open>
  What \<^verbatim>\<open>parse_value\<close> can do: go to \<^verbatim>\<open>error\<close> at once, run a handler that
  appends, or open a scope with the continuation it was given.
\<close>

lemma gotos_parse_value:
  assumes "P Error s"
    and "\<And>s'. appends s s' \<Longrightarrow> P Error s' \<and> P k s'"
    and "\<And>s'. start_scope a s = Some (True, s') \<Longrightarrow> P Error s'"
    and "\<And>s'. start_scope a s = Some (False, s') \<Longrightarrow> P Object_begin s' \<and> P Array_begin s'"
  shows "gotos P (parse_value ext a k c s)"
  unfolding parse_value_def start_object_def start_array_def
  by (intro gotos_intros) (auto dest!: handlers_append dest: assms(2,3,4) intro: assms(1))

subsection \<open>Opening a scope\<close>

lemma start_scope_Some:
  assumes "start_scope c s = Some (b, s')"
  shows "unat (depth s) < length (containing_scope s) \<and>
     unat (depth s) < length (ret_address s) \<and>
     b = (max_depth s \<le> unat (depth s + 1)) \<and>
     s' = s\<lparr>containing_scope := (containing_scope s)
             [unat (depth s) := \<lparr>tape_index = next_tape_index s, count = 0\<rparr>],
         next_tape_loc := next_tape_loc s + 1,
         ret_address := (ret_address s)[unat (depth s) := c],
         depth := depth s + 1\<rparr>"
proof (cases "unat (depth s) < length (containing_scope s) \<and> unat (depth s) < length (ret_address s)")
  case True
  with assms start_scope_eq [of s c] show ?thesis by simp
next
  case False
  with assms start_scope_None [of s c] show ?thesis by simp
qed

lemma depth_word_facts:
  fixes d :: "32 word"
  shows "d \<noteq> d + 1" "d - 1 \<noteq> d + 1" "d - 1 \<noteq> d"
proof -
  show "d - 1 \<noteq> d + 1"
  proof
    assume "d - 1 = d + 1"
    then have "(d - 1) - d = (d + 1) - d" by simp
    then have "(- 1 :: 32 word) = 1" by simp
    then show False by simp
  qed
qed simp_all

lemma step_depth_overflow:
  "gotos (\<lambda>l' s'. depth s' = depth s + 1 \<longrightarrow> max_depth s \<le> unat (depth s') \<longrightarrow> l' = Error)
     (step ext streaming l s)"
proof (cases l)
  case Document_begin
  show ?thesis
    unfolding Document_begin step.simps start_object_def start_array_def
    by (intro gotos_intros)
      (auto dest!: handlers_append start_scope_Some simp: appends_def depth_word_facts)
next
  case Object_begin
  show ?thesis
    unfolding Object_begin step.simps end_object_def
    by (intro gotos_intros)
      (auto dest!: handlers_append advance_char_Some increment_count_Some end_scope_depth
        simp: appends_def depth_word_facts)
next
  case Object_key_state
  show ?thesis
    unfolding Object_key_state step.simps
    by (intro gotos_intros gotos_parse_value)
      (auto dest!: advance_char_Some start_scope_Some simp: appends_def depth_word_facts)
next
  case Object_continue
  show ?thesis
    unfolding Object_continue step.simps end_object_def
    by (intro gotos_intros)
      (auto dest!: handlers_append advance_char_Some increment_count_Some end_scope_depth
        simp: appends_def depth_word_facts)
next
  case Scope_end
  show ?thesis
    unfolding Scope_end step.simps
    by (intro gotos_intros) (simp add: depth_word_facts)
next
  case Array_begin
  show ?thesis
    unfolding Array_begin step.simps end_array_def
    by (intro gotos_intros)
      (auto dest!: advance_char_Some increment_count_Some end_scope_depth
        simp: depth_word_facts)
next
  case Main_array_switch
  show ?thesis
    unfolding Main_array_switch step.simps
    by (intro gotos_intros gotos_parse_value)
      (auto dest!: advance_char_Some start_scope_Some simp: appends_def depth_word_facts)
next
  case Array_continue
  show ?thesis
    unfolding Array_continue step.simps end_array_def
    by (intro gotos_intros)
      (auto dest!: advance_char_Some increment_count_Some end_scope_depth
        simp: depth_word_facts)
next
  case Finish
  show ?thesis
    unfolding Finish step.simps by (intro gotos_intros)
next
  case Error
  show ?thesis
    unfolding Error step.simps by (intro gotos_intros)
qed

text \<open>
  C5. \<^verbatim>\<open>start_scope\<close> records, at the current depth, the next tape index with a
  count of 0 and the continuation, reserves one tape word and increments the depth; it
  returns true exactly when the incremented depth is not below \<open>max_depth\<close>. When
  that happens during a parse, be it in \<^verbatim>\<open>start\<close> or at a pass of the machine
  that takes the depth up to \<open>max_depth\<close> or more, \<^verbatim>\<open>parse_structurals\<close>
  returns \<^verbatim>\<open>DEPTH_ERROR\<close> and stores it. An input whose nesting reaches
  \<open>max_depth\<close> is rejected with another error when the parse fails before the scope
  at that depth is opened.
\<close>

theorem start_scope_depth_limit:
  "(unat (depth s) < length (containing_scope s) \<longrightarrow>
    unat (depth s) < length (ret_address s) \<longrightarrow>
      start_scope c s =
        Some (max_depth s \<le> unat (depth s + 1),
          s\<lparr>containing_scope := (containing_scope s)
                [unat (depth s) := \<lparr>tape_index = next_tape_index s, count = 0\<rparr>],
            next_tape_loc := next_tape_loc s + 1,
            ret_address := (ret_address s)[unat (depth s) := c],
            depth := depth s + 1\<rparr>)) \<and>
   (\<not> at_end (structural_parser p (if streaming then unat (next_structural_index p) else 0))
         (n_structural_indexes p) \<longrightarrow>
    start_scope addr_finish
      (init (structural_parser p (if streaming then unat (next_structural_index p) else 0)))
      = Some (True, s0) \<longrightarrow>
      parse_structurals ext streaming p = Some (DEPTH_ERROR, s0\<lparr>error := DEPTH_ERROR\<rparr>)) \<and>
   (reached ext streaming p k = Some (l, s) \<longrightarrow>
    step ext streaming l s = Some (Goto l' s') \<longrightarrow>
    depth s' = depth s + 1 \<longrightarrow> max_depth s \<le> unat (depth s') \<longrightarrow>
      parse_structurals ext streaming p = Some (DEPTH_ERROR, s'\<lparr>error := DEPTH_ERROR\<rparr>))"
proof (intro conjI impI)
  assume "unat (depth s) < length (containing_scope s)" "unat (depth s) < length (ret_address s)"
  then show "start_scope c s =
        Some (max_depth s \<le> unat (depth s + 1),
          s\<lparr>containing_scope := (containing_scope s)
                [unat (depth s) := \<lparr>tape_index = next_tape_index s, count = 0\<rparr>],
            next_tape_loc := next_tape_loc s + 1,
            ret_address := (ret_address s)[unat (depth s) := c],
            depth := depth s + 1\<rparr>)"
    by (rule start_scope_eq)
next
  assume "\<not> at_end (structural_parser p (if streaming then unat (next_structural_index p) else 0))
         (n_structural_indexes p)"
    and "start_scope addr_finish
      (init (structural_parser p (if streaming then unat (next_structural_index p) else 0)))
      = Some (True, s0)"
  then show "parse_structurals ext streaming p = Some (DEPTH_ERROR, s0\<lparr>error := DEPTH_ERROR\<rparr>)"
    by (simp add: parse_structurals_def start_def start_document_def structural_parser_def)
next
  assume re: "reached ext streaming p k = Some (l, s)"
    and st: "step ext streaming l s = Some (Goto l' s')"
    and d: "depth s' = depth s + 1" "max_depth s \<le> unat (depth s')"
  from step_depth_overflow [of s ext streaming l] st d have "l' = Error"
    by (simp add: gotos_def)
  moreover from progress_fields [OF step_Goto_progress [OF st]] d(2)
  have "max_depth s' \<le> unat (depth s')" by simp
  ultimately have "run ext streaming l s = Some (DEPTH_ERROR, s'\<lparr>error := DEPTH_ERROR\<rparr>)"
    using st by (simp add: run_Goto run_Error error_fn_def)
  with reached_run [OF re]
  show "parse_structurals ext streaming p = Some (DEPTH_ERROR, s'\<lparr>error := DEPTH_ERROR\<rparr>)"
    by simp
qed

text \<open>The document \<^verbatim>\<open>[[1\<close> cut short, in a parser with room for three scopes.\<close>

definition nested_cut_doc :: parser_state where
  "nested_cut_doc = example_parser [0x5B, 0x5B, 0x31, 0x20, 0x20] 3 [0, 1, 2, 3, 0] 3 3 8 8"

text \<open>The document \<^verbatim>\<open>1\<close>, in a parser with room for one scope.\<close>

definition no_room_doc :: parser_state where
  "no_room_doc = example_parser [0x31, 0x20, 0x20] 1 [0, 1, 0] 1 1 8 8"

text \<open>The document \<^verbatim>\<open>[]\<close> after \<^verbatim>\<open>start\<close>, in a parser with room for two scopes.\<close>

definition array_at_limit :: parser_state where
  "array_at_limit = (example_parser [0x5B, 0x5D, 0x20, 0x20] 2 [0, 1, 2, 0] 2 2 4 8)
     \<lparr>depth := 1, next_tape_loc := 1, error := UNINITIALIZED\<rparr>"

text \<open>Where a pass of the machine goes, with the depth it leaves.\<close>

definition goes_to :: "outcome \<Rightarrow> (label \<times> 32 word) option" where
  "goes_to out = (case out of Goto l s \<Rightarrow> Some (l, depth s) | Return e s \<Rightarrow> None)"

lemma nested_cut_doc_streaming:
  "map_option (\<lambda>(l, s). (l, depth s, max_depth s,
       map_option goes_to (step example_externals True l s)))
     (reached example_externals True nested_cut_doc 2)
   = Some (Main_array_switch, 2, 3, Some (Some (Error, 3)))"
  by code_simp

lemma no_room_doc_start:
  "\<not> at_end (structural_parser no_room_doc 0) (n_structural_indexes no_room_doc) \<and>
   map_option fst (start_scope addr_finish (init (structural_parser no_room_doc 0))) = Some True"
  by code_simp

theorem start_scope_depth_limit_witness:
  "map_option fst (start_scope addr_finish array_at_limit) = Some True \<and>
   (\<exists>s0. start_scope addr_finish (init (structural_parser no_room_doc 0)) = Some (True, s0) \<and>
      parse_structurals example_externals False no_room_doc =
        Some (DEPTH_ERROR, s0\<lparr>error := DEPTH_ERROR\<rparr>)) \<and>
   (\<exists>s s'. reached example_externals True nested_cut_doc 2 = Some (Main_array_switch, s) \<and>
      step example_externals True Main_array_switch s = Some (Goto Error s') \<and>
      depth s = 2 \<and> depth s' = 3 \<and> max_depth s = 3 \<and>
      parse_structurals example_externals True nested_cut_doc =
        Some (DEPTH_ERROR, s'\<lparr>error := DEPTH_ERROR\<rparr>))"
proof -
  have f: "unat (depth array_at_limit) < length (containing_scope array_at_limit)"
    "unat (depth array_at_limit) < length (ret_address array_at_limit)"
    "max_depth array_at_limit \<le> unat (depth array_at_limit + 1)"
    by (simp_all add: array_at_limit_def example_parser_def)
  from no_room_doc_start obtain s0 where
    n: "\<not> at_end (structural_parser no_room_doc 0) (n_structural_indexes no_room_doc)"
    and s0: "start_scope addr_finish (init (structural_parser no_room_doc 0)) = Some (True, s0)"
    by auto
  from nested_cut_doc_streaming obtain s out where
    re: "reached example_externals True nested_cut_doc 2 = Some (Main_array_switch, s)"
    and d0: "depth s = 2" "max_depth s = 3"
    and out: "step example_externals True Main_array_switch s = Some out"
      "goes_to out = Some (Error, 3)"
    by (auto simp del: step.simps)
  from out(2) obtain s' where "out = Goto Error s'" and d1: "depth s' = 3"
    by (cases out) (auto simp: goes_to_def)
  with out(1) have st: "step example_externals True Main_array_switch s = Some (Goto Error s')"
    by simp
  note d = d0(1) d1 d0(2)
  have 1: "map_option fst (start_scope addr_finish array_at_limit) = Some True"
    using start_scope_depth_limit [where s = array_at_limit and c = addr_finish] f
    by simp
  have 2: "parse_structurals example_externals False no_room_doc =
        Some (DEPTH_ERROR, s0\<lparr>error := DEPTH_ERROR\<rparr>)"
    using start_scope_depth_limit [where streaming = False and p = no_room_doc and ?s0.0 = s0
        and ext = example_externals] n s0
    by simp
  have 3: "parse_structurals example_externals True nested_cut_doc =
        Some (DEPTH_ERROR, s'\<lparr>error := DEPTH_ERROR\<rparr>)"
    using start_scope_depth_limit [where streaming = True and p = nested_cut_doc and s = s
        and ext = example_externals and k = 2 and l = Main_array_switch and l' = Error
        and s' = s'] re st d
    by simp
  from 1 2 3 s0 re st d show ?thesis
    by blast
qed

text \<open>
  In non-streaming mode the nesting of \<^verbatim>\<open>[[1\<close> reaches the three scopes the parser
  has room for, and the parse returns \<^verbatim>\<open>TAPE_ERROR\<close>: the root array is not closed,
  which is found before the second array is opened.
\<close>

theorem nesting_depth_counterexample:
  "nesting_depth nested_cut_doc = 3 \<and> max_depth nested_cut_doc = 3 \<and>
   map_option fst (parse_structurals example_externals False nested_cut_doc) = Some TAPE_ERROR"
  by code_simp

subsection \<open>The closing bracket of a root array\<close>











section \<open>Openers and closers on the tape\<close>

subsection \<open>The scopes a run closes\<close>





subsection \<open>Reading a tape word\<close>

text \<open>
  The tag is the top byte of a tape word and the payload its low 56 bits; in an opener
  the low 32 bits of the payload are a tape index.
\<close>

definition tape_tag :: "64 word \<Rightarrow> 8 word" where
  "tape_tag w = ucast (drop_bit 56 w)"

definition tape_payload :: "64 word \<Rightarrow> nat" where
  "tape_payload w = unat (take_bit 56 w)"

definition scope_end_index :: "64 word \<Rightarrow> nat" where
  "scope_end_index w = unat (ucast w :: 32 word)"

definition scope_tags :: "(tape_type \<times> tape_type) list" where
  "scope_tags = [(ROOT, ROOT), (START_OBJECT, END_OBJECT), (START_ARRAY, END_ARRAY)]"

text \<open>
  The opener at \<open>i\<close> is linked with its closer: with \<open>j\<close> the index in the payload of
  the word at \<open>i\<close>, the word before \<open>j\<close> has the closing tag that goes with the tag
  at \<open>i\<close>, and \<open>i\<close> as its payload.
\<close>

definition scope_linked :: "externals \<Rightarrow> 64 word list \<Rightarrow> nat \<Rightarrow> bool" where
  "scope_linked ext tp i \<longleftrightarrow>
     (let j = scope_end_index (tp ! i) in
      i < j - 1 \<and> j \<le> length tp \<and>
      (\<exists>(st, en) \<in> set scope_tags.
         tape_tag (tp ! i) = tag_code ext st \<and> tape_tag (tp ! (j - 1)) = tag_code ext en) \<and>
      tape_payload (tp ! (j - 1)) = i)"


subsection \<open>The invariant of the machine\<close>

text \<open>
  \<open>open_slot s d\<close> is the tape index of the opener of the scope at stack entry \<open>d\<close>;
  \<open>ret_ok s d\<close> says that the continuation recorded at \<open>d\<close> is the one the machine
  stores there: \<^verbatim>\<open>finish\<close> for the value at the root, \<^verbatim>\<open>array_continue\<close> or
  \<^verbatim>\<open>object_continue\<close> deeper.
\<close>

definition open_slot :: "parser_state \<Rightarrow> nat \<Rightarrow> nat" where
  "open_slot s d = unat (tape_index (containing_scope s ! d))"

definition ret_ok :: "parser_state \<Rightarrow> nat \<Rightarrow> bool" where
  "ret_ok s d \<longleftrightarrow>
     d < length (ret_address s) \<and>
     (if d = 1 then ret_address s ! d = 1 else ret_address s ! d = 0 \<or> ret_address s ! d = 2)"

definition rets_ok :: "parser_state \<Rightarrow> bool" where
  "rets_ok s \<longleftrightarrow> (\<forall>d. 1 \<le> d \<and> d < unat (depth s) \<longrightarrow> ret_ok s d)"

definition opens_ok :: "parser_state \<Rightarrow> bool" where
  "opens_ok s \<longleftrightarrow>
     (\<forall>d < unat (depth s). d < length (containing_scope s) \<and> open_slot s d < next_tape_loc s) \<and>
     (\<forall>d d'. d < d' \<and> d' < unat (depth s) \<longrightarrow> open_slot s d < open_slot s d')"

definition closed_ok :: "externals \<Rightarrow> parser_state \<Rightarrow> nat \<Rightarrow> bool" where
  "closed_ok ext s i \<longleftrightarrow>
     scope_linked ext (tape s) i \<and> scope_end_index (tape s ! i) \<le> next_tape_loc s \<and>
     (\<forall>d < unat (depth s).
        open_slot s d \<noteq> i \<and> open_slot s d \<noteq> scope_end_index (tape s ! i) - 1)"

definition wf_state :: "externals \<Rightarrow> nat set \<Rightarrow> parser_state \<Rightarrow> bool" where
  "wf_state ext C s \<longleftrightarrow>
     length (tape s) < 2 ^ 32 \<and> max_depth s < 2 ^ 32 \<and>
     next_tape_loc s \<le> length (tape s) \<and>
     rets_ok s \<and> opens_ok s \<and> (\<forall>i \<in> C. closed_ok ext s i)"








lemma unat_depth_Suc:
  fixes d :: "32 word"
  assumes "unat d < m" and "m < 2 ^ 32"
  shows "unat (d + 1) = unat d + 1"
proof -
  from assms have "unat d + 1 < 2 ^ 32" by simp
  then show ?thesis by (simp add: unat_word_ariths)
qed

lemma unat_depth_pred:
  fixes d :: "32 word"
  assumes "1 \<le> unat d"
  shows "unat (d - 1) = unat d - 1"
proof -
  from assms have "d \<noteq> 0" by auto
  then show ?thesis by (rule unat_minus_one)
qed






subsection \<open>The invariant at a label\<close>



text \<open>\<open>keeps ext C s s'\<close>: from \<open>s\<close> to \<open>s'\<close> no scope was opened or closed.\<close>

definition keeps :: "externals \<Rightarrow> nat set \<Rightarrow> parser_state \<Rightarrow> parser_state \<Rightarrow> bool" where
  "keeps ext C s s' \<longleftrightarrow>
     depth s' = depth s \<and> max_depth s' = max_depth s \<and>
     length (tape s') = length (tape s) \<and> next_tape_loc s \<le> next_tape_loc s' \<and>
     (next_tape_loc s' \<le> length (tape s') \<longrightarrow> wf_state ext C s \<longrightarrow> wf_state ext C s')"

lemma keeps_refl: "keeps ext C s s"
  by (simp add: keeps_def)














text \<open>\<open>moved s s'\<close>: only the cursor into the structural indexes differs.\<close>

definition moved :: "parser_state \<Rightarrow> parser_state \<Rightarrow> bool" where
  "moved s s' \<longleftrightarrow> (\<exists>k. s' = s\<lparr>current_structural := k\<rparr>)"

lemma moved_refl: "moved s s"
  unfolding moved_def by (rule exI [of _ "current_structural s"]) simp














subsection \<open>Every pass keeps the invariant\<close>














subsection \<open>Whole runs\<close>











section \<open>The child count of a scope\<close>

subsection \<open>The children of a scope\<close>

text \<open>
  The structural byte of index \<open>k\<close>, which is what \<^verbatim>\<open>advance_char\<close> returns
  when it moves the cursor to \<open>k\<close>, and the structural bytes of the indexes from
  \<open>a\<close> to \<open>b - 1\<close>.
\<close>

definition byte_at :: "parser_state \<Rightarrow> nat \<Rightarrow> 8 word" where
  "byte_at s k = buf s ! unat (structural_indexes s ! k)"

definition bytes_between :: "parser_state \<Rightarrow> nat \<Rightarrow> nat \<Rightarrow> 8 word list" where
  "bytes_between s a b = map (byte_at s) [a..<b]"

text \<open>
  The children of a scope, as the specification speaks of them, from the structural bytes
  between its opening bracket and its closing one: the bytes must be well nested, and
  the scope has no child when there is no byte, and otherwise one child more than there
  are commas outside of every nested scope. A child of an object is a key with its value.
\<close>

definition opener :: "8 word \<Rightarrow> bool" where
  "opener c \<longleftrightarrow> c = 0x7B \<or> c = 0x5B"

definition closer :: "8 word \<Rightarrow> bool" where
  "closer c \<longleftrightarrow> c = 0x7D \<or> c = 0x5D"

fun scan :: "nat \<Rightarrow> nat \<Rightarrow> 8 word list \<Rightarrow> (nat \<times> nat) option" where
  "scan lv n [] = Some (lv, n)"
| "scan lv n (c # cs) =
     (if opener c then scan (lv + 1) n cs
      else if closer c then (if lv = 0 then None else scan (lv - 1) n cs)
      else if c = 0x2C \<and> lv = 0 then scan lv (n + 1) cs
      else scan lv n cs)"

definition children :: "8 word list \<Rightarrow> nat option" where
  "children bs =
     (case scan 0 0 bs of
        None \<Rightarrow> None
      | Some (lv, n) \<Rightarrow> if lv = 0 then Some (if bs = [] then 0 else n + 1) else None)"

lemma scan_append:
  "scan lv n (xs @ ys) = (case scan lv n xs of None \<Rightarrow> None | Some (lv', n') \<Rightarrow> scan lv' n' ys)"
  by (induction xs arbitrary: lv n) auto

lemma scan_snoc_plain:
  assumes "scan 0 0 xs = Some (0, n)" and "\<not> opener c" and "\<not> closer c"
  shows "scan 0 0 (xs @ [c]) = Some (0, if c = 0x2C then n + 1 else n)"
  using assms by (simp add: scan_append)

lemma scan_lift:
  "scan l m ys = Some (l', m') \<Longrightarrow> scan (l + Suc k) n ys = Some (l' + Suc k, n)"
proof (induction ys arbitrary: l m)
  case Nil
  then show ?case by simp
next
  case (Cons c cs)
  show ?case
  proof (cases "opener c")
    case True
    with Cons.prems have "scan (l + 1) m cs = Some (l', m')" by simp
    from Cons.IH [OF this] True show ?thesis by simp
  next
    case no: False
    show ?thesis
    proof (cases "closer c")
      case True
      with no Cons.prems have l: "l \<noteq> 0" and "scan (l - 1) m cs = Some (l', m')"
        by (auto split: if_splits)
      from Cons.IH [OF this(2)] l no True show ?thesis by simp
    next
      case False
      with no Cons.prems have "scan l (if c = 0x2C \<and> l = 0 then m + 1 else m) cs = Some (l', m')"
        by (auto split: if_splits)
      from Cons.IH [OF this] no False show ?thesis by simp
    qed
  qed
qed

lemma closer_not_opener: "closer c \<Longrightarrow> \<not> opener c"
  by (auto simp: closer_def opener_def)

lemma scan_block:
  assumes "scan 0 0 xs = Some (0, n)" and "opener c" and "closer c'"
    and "scan 0 0 ys = Some (0, m)"
  shows "scan 0 0 (xs @ c # ys @ [c']) = Some (0, n)"
proof -
  from scan_lift [OF assms(4), of 0 n] have "scan 1 n ys = Some (1, n)" by simp
  with assms(1,2,3) closer_not_opener [OF assms(3)] show ?thesis
    by (simp add: scan_append)
qed

lemma bytes_between_empty: "bytes_between s a a = []"
  by (simp add: bytes_between_def)

lemma bytes_between_snoc:
  "a \<le> e \<Longrightarrow> bytes_between s a (e + 1) = bytes_between s a e @ [byte_at s e]"
  by (simp add: bytes_between_def)

lemma bytes_between_split:
  "a \<le> m \<Longrightarrow> m \<le> e \<Longrightarrow> bytes_between s a e = bytes_between s a m @ bytes_between s m e"
  unfolding bytes_between_def map_append [symmetric]
  by (metis le_Suc_ex upt_add_eq_append)

lemma bytes_between_cons:
  "a < e \<Longrightarrow> bytes_between s a e = byte_at s a # bytes_between s (a + 1) e"
  by (simp add: bytes_between_def upt_conv_Cons)

lemma bytes_between_Nil: "bytes_between s a e = [] \<longleftrightarrow> e \<le> a"
  by (auto simp: bytes_between_def)

lemma bytes_between_cong:
  "buf s' = buf s \<Longrightarrow> structural_indexes s' = structural_indexes s \<Longrightarrow>
     bytes_between s' a e = bytes_between s a e"
  by (simp add: bytes_between_def byte_at_def)


subsection \<open>The scopes that are open\<close>

text \<open>
  The invariant of the machine, for a list \<open>as\<close> of the indexes of the opening
  brackets of the scopes that are open, the innermost first. The scope opened at the
  structural byte \<open>a\<close> has the entry \<open>j\<close> of the scope stack; the bytes from
  \<open>a + 1\<close> to \<open>e - 1\<close> are well nested, and the counter of the entry is one more
  than the number of their commas outside of nested scopes, less \<open>d\<close>: \<open>d\<close> is 1
  from the moment a scope is opened or a comma is read to the call of
  \<^verbatim>\<open>increment_count\<close> that follows, and 0 otherwise. The continuation of the scope
  is \<^verbatim>\<open>finish\<close> for the entry 1 and \<^verbatim>\<open>array_continue\<close> or
  \<^verbatim>\<open>object_continue\<close> for the others. The counter of the root scope stays 0.
\<close>

definition ret_fits :: "nat \<Rightarrow> 8 word \<Rightarrow> bool" where
  "ret_fits j r \<longleftrightarrow>
     (if j = 1 then r = addr_finish else r = addr_array_continue \<or> r = addr_object_continue)"

definition scope_ok :: "parser_state \<Rightarrow> nat \<Rightarrow> nat \<Rightarrow> nat \<Rightarrow> 32 word \<Rightarrow> bool" where
  "scope_ok s e a j d \<longleftrightarrow>
     a < e \<and> opener (byte_at s a) \<and>
     (\<exists>n. scan 0 0 (bytes_between s (a + 1) e) = Some (0, n) \<and>
          count (containing_scope s ! j) + d = of_nat (n + 1)) \<and>
     ret_fits j (ret_address s ! j)"

fun parents_ok :: "parser_state \<Rightarrow> nat \<Rightarrow> nat list \<Rightarrow> bool" where
  "parents_ok s e [] = (count (containing_scope s ! 0) = 0)"
| "parents_ok s e (a # as) = (scope_ok s e a (length as + 1) 0 \<and> parents_ok s a as)"

definition innermost :: "parser_state \<Rightarrow> nat list \<Rightarrow> 32 word \<Rightarrow> bool" where
  "innermost s as d \<longleftrightarrow>
     as \<noteq> [] \<and> unat (depth s) = length as + 1 \<and> unat (depth s) < max_depth s \<and>
     max_depth s < 2 ^ 32 \<and>
     scope_ok s (current_structural s + 1) (hd as) (length as) d \<and>
     parents_ok s (hd as) (tl as)"

definition just_closed :: "parser_state \<Rightarrow> nat list \<Rightarrow> bool" where
  "just_closed s as \<longleftrightarrow>
     unat (depth s) = length as + 1 \<and> unat (depth s) < max_depth s \<and>
     max_depth s < 2 ^ 32 \<and>
     parents_ok s (current_structural s + 1) as \<and>
     (as \<noteq> [] \<longrightarrow> hd as < current_structural s) \<and>
     ret_fits (length as + 1) (ret_address s ! (length as + 1))"

definition same_scopes :: "nat \<Rightarrow> parser_state \<Rightarrow> parser_state \<Rightarrow> bool" where
  "same_scopes k s s' \<longleftrightarrow>
     buf s' = buf s \<and> structural_indexes s' = structural_indexes s \<and>
     (\<forall>j\<le>k. containing_scope s' ! j = containing_scope s ! j \<and>
            ret_address s' ! j = ret_address s ! j)"

text \<open>
  The count in the opener of the scope that has just been closed: \<^verbatim>\<open>end_scope\<close>
  leaves the depth at the index of the entry of that scope.
\<close>

definition stored_count :: "parser_state \<Rightarrow> nat" where
  "stored_count s =
     unat (take_bit 24 (drop_bit 32
       (tape s ! unat (tape_index (containing_scope s ! unat (depth s))))))"

definition saturated :: "nat \<Rightarrow> nat" where
  "saturated m = (if m mod 2 ^ 32 < 2 ^ 24 then m mod 2 ^ 32 else 0xFFFFFF)"

definition closes :: "parser_state \<Rightarrow> bool" where
  "closes s \<longleftrightarrow>
     (\<exists>a m. a < current_structural s \<and> opener (byte_at s a) \<and>
        closer (byte_at s (current_structural s)) \<and>
        children (bytes_between s (a + 1) (current_structural s)) = Some m \<and>
        stored_count s = saturated m)"

lemma same_scopes_mono: "same_scopes k s s' \<Longrightarrow> j \<le> k \<Longrightarrow> same_scopes j s s'"
  by (simp add: same_scopes_def)

lemma byte_at_cong:
  "buf s' = buf s \<Longrightarrow> structural_indexes s' = structural_indexes s \<Longrightarrow> byte_at s' = byte_at s"
  by (simp add: byte_at_def fun_eq_iff)

lemma scope_ok_cong:
  assumes "same_scopes k s s'" and "j \<le> k"
  shows "scope_ok s' e a j d = scope_ok s e a j d"
proof -
  from assms have b: "buf s' = buf s" "structural_indexes s' = structural_indexes s"
    and c: "containing_scope s' ! j = containing_scope s ! j"
      "ret_address s' ! j = ret_address s ! j"
    by (simp_all add: same_scopes_def)
  from b have "byte_at s' = byte_at s"
    by (rule byte_at_cong)
  with c show ?thesis
    by (simp add: scope_ok_def bytes_between_def)
qed

lemma parents_ok_cong:
  assumes "same_scopes k s s'" and "length as \<le> k"
  shows "parents_ok s' e as = parents_ok s e as"
  using assms(2)
proof (induction as arbitrary: e)
  case Nil
  from assms(1) show ?case by (simp add: same_scopes_def)
next
  case (Cons a as)
  from Cons.prems have "length as + 1 \<le> k" "length as \<le> k" by simp_all
  with Cons.IH [of a] scope_ok_cong [OF assms(1), of "length as + 1" e a 0]
  show ?case by simp
qed

lemma scope_ok_extend:
  assumes "scope_ok s e a j d" and "\<not> opener (byte_at s e)" and "\<not> closer (byte_at s e)"
  shows "scope_ok s (e + 1) a j (if byte_at s e = 0x2C then d + 1 else d)"
proof -
  from assms(1) obtain n where ae: "a < e" and o: "opener (byte_at s a)"
    and sc: "scan 0 0 (bytes_between s (a + 1) e) = Some (0, n)"
    and c: "count (containing_scope s ! j) + d = of_nat (n + 1)"
    and r: "ret_fits j (ret_address s ! j)"
    by (auto simp: scope_ok_def)
  from ae have "a + 1 \<le> e" by simp
  from bytes_between_snoc [OF this]
  have "bytes_between s (a + 1) (e + 1) = bytes_between s (a + 1) e @ [byte_at s e]" .
  with scan_snoc_plain [OF sc assms(2,3)]
  have sc': "scan 0 0 (bytes_between s (a + 1) (e + 1)) =
      Some (0, if byte_at s e = 0x2C then n + 1 else n)"
    by simp
  have c': "count (containing_scope s ! j) + (if byte_at s e = 0x2C then d + 1 else d) =
      of_nat ((if byte_at s e = 0x2C then n + 1 else n) + 1)"
    using c by (simp add: add.assoc [symmetric])
  from ae o sc' c' r show ?thesis
    unfolding scope_ok_def by (intro conjI exI [of _ "if byte_at s e = 0x2C then n + 1 else n"]) simp_all
qed

lemma advance_char_byte:
  "advance_char s = Some (c, s') \<Longrightarrow> c = byte_at s (current_structural s + 1)"
  by (auto simp: advance_char_def current_char_def current_def rd_def Let_def byte_at_def
      split: Option.bind_splits if_splits)

lemma current_char_byte: "current_char s = Some c \<Longrightarrow> c = byte_at s (current_structural s)"
  by (auto simp: current_char_def current_def rd_def byte_at_def
      split: Option.bind_splits if_splits)

lemma peek_next_char_byte:
  "peek_next_char s = Some c \<Longrightarrow> c = byte_at s (current_structural s + 1)"
  by (auto simp: peek_next_char_def rd_def byte_at_def split: Option.bind_splits if_splits)

lemma advance_char_same: "advance_char s = Some (c, s') \<Longrightarrow> same_scopes k s s'"
  by (drule advance_char_Some) (simp add: same_scopes_def)

lemma appends_same: "appends s s' \<Longrightarrow> same_scopes k s s'"
  by (simp add: appends_def frame_def same_scopes_def)

lemma innermost_advance:
  assumes "innermost s as d" and "advance_char s = Some (c, s1)"
    and "\<not> opener c" and "\<not> closer c"
  shows "innermost s1 as (if c = 0x2C then d + 1 else d) \<and> hd as < current_structural s1"
proof -
  note s1 = advance_char_Some [OF assms(2)]
  note c = advance_char_byte [OF assms(2)]
  note same = advance_char_same [OF assms(2), of "length as"]
  from assms(1) have as: "as \<noteq> []" and d: "unat (depth s) = length as + 1"
    "unat (depth s) < max_depth s" "max_depth s < 2 ^ 32"
    and top: "scope_ok s (current_structural s + 1) (hd as) (length as) d"
    and rest: "parents_ok s (hd as) (tl as)"
    by (simp_all add: innermost_def)
  have f: "depth s1 = depth s" "max_depth s1 = max_depth s"
    "current_structural s1 = current_structural s + 1"
    using s1 by simp_all
  from scope_ok_extend [OF top] assms(3,4)
  have "scope_ok s (current_structural s + 1 + 1) (hd as) (length as) (if c = 0x2C then d + 1 else d)"
    unfolding c by simp
  then have top': "scope_ok s1 (current_structural s1 + 1) (hd as) (length as)
      (if c = 0x2C then d + 1 else d)"
    unfolding f(3) scope_ok_cong [OF same order_refl] .
  have rest': "parents_ok s1 (hd as) (tl as)"
    using rest by (simp add: parents_ok_cong [OF same])
  from top have "hd as < current_structural s + 1"
    by (simp add: scope_ok_def)
  then show ?thesis
    using as d top' rest' unfolding innermost_def f by simp
qed

lemma innermost_appends:
  assumes "innermost s as d" and "appends s s1"
  shows "innermost s1 as d \<and> current_structural s1 = current_structural s"
proof -
  note same = appends_same [OF assms(2), of "length as"]
  from assms(2) have f: "depth s1 = depth s" "max_depth s1 = max_depth s"
    "current_structural s1 = current_structural s"
    by (simp_all add: appends_def frame_def)
  from assms(1) show ?thesis
    unfolding innermost_def f
    by (simp add: scope_ok_cong [OF same] parents_ok_cong [OF same])
qed

lemma innermost_increment:
  assumes "innermost s as 1" and "increment_count s = Some s1"
  shows "innermost s1 as 0 \<and> current_structural s1 = current_structural s"
proof -
  from assms(1) have as: "as \<noteq> []" and d: "unat (depth s) = length as + 1"
    "unat (depth s) < max_depth s" "max_depth s < 2 ^ 32"
    and top: "scope_ok s (current_structural s + 1) (hd as) (length as) 1"
    and rest: "parents_ok s (hd as) (tl as)"
    by (simp_all add: innermost_def)
  from d have k: "unat (depth s - 1) = length as"
    by (simp add: unat_depth_pred)
  from increment_count_Some [OF assms(2)] k
  have lt: "length as < length (containing_scope s)"
    and s1: "s1 = s\<lparr>containing_scope := (containing_scope s)
            [length as := (containing_scope s ! length as)
               \<lparr>count := count (containing_scope s ! length as) + 1\<rparr>]\<rparr>"
    by simp_all
  have "length as \<noteq> j" if "j \<le> length as - 1" for j
    using that as by (cases as) auto
  then have same: "same_scopes (length as - 1) s s1"
    by (simp add: s1 same_scopes_def)
  have f: "depth s1 = depth s" "max_depth s1 = max_depth s"
    "current_structural s1 = current_structural s" "buf s1 = buf s"
    "structural_indexes s1 = structural_indexes s" "ret_address s1 = ret_address s"
    "count (containing_scope s1 ! length as) = count (containing_scope s ! length as) + 1"
    using lt by (simp_all add: s1)
  have top': "scope_ok s1 (current_structural s + 1) (hd as) (length as) 0"
    using top unfolding scope_ok_def f(6,7) byte_at_cong [OF f(4,5)] bytes_between_cong [OF f(4,5)]
    by simp
  have rest': "parents_ok s1 (hd as) (tl as)"
    using rest by (simp add: parents_ok_cong [OF same])
  from as d top' rest' show ?thesis
    unfolding innermost_def f(1,2,3) by simp
qed

lemma innermost_parents:
  "innermost s as 0 \<Longrightarrow> parents_ok s (current_structural s + 1) as"
  by (cases as) (simp_all add: innermost_def)

lemma parents_innermost:
  assumes "parents_ok s (current_structural s + 1) as" and "as \<noteq> []"
    and "unat (depth s) = length as + 1" and "unat (depth s) < max_depth s"
    and "max_depth s < 2 ^ 32"
  shows "innermost s as 0"
  using assms by (cases as) (simp_all add: innermost_def)

lemma start_scope_same:
  assumes "start_scope r s = Some (b, s1)" and "k < unat (depth s)"
  shows "same_scopes k s s1"
proof -
  have "unat (depth s) \<noteq> j" if "j \<le> k" for j
    using that assms(2) by simp
  with start_scope_Some [OF assms(1)] show ?thesis
    by (simp add: same_scopes_def)
qed

lemma start_scope_entry:
  assumes "start_scope r s = Some (False, s1)"
    and "unat (depth s) < max_depth s" and "max_depth s < 2 ^ 32"
  shows "unat (depth s1) = unat (depth s) + 1 \<and> unat (depth s1) < max_depth s1 \<and>
     max_depth s1 = max_depth s \<and>
     current_structural s1 = current_structural s \<and>
     buf s1 = buf s \<and> structural_indexes s1 = structural_indexes s \<and>
     count (containing_scope s1 ! unat (depth s)) = 0 \<and>
     ret_address s1 ! unat (depth s) = r"
proof -
  note ss = start_scope_Some [OF assms(1)]
  note u = unat_depth_Suc [OF assms(2,3)]
  from ss u show ?thesis
    by simp
qed

lemma fresh_scope:
  assumes "opener (byte_at s1 (current_structural s1))"
    and "count (containing_scope s1 ! j) = 0"
    and "ret_fits j (ret_address s1 ! j)"
  shows "scope_ok s1 (current_structural s1 + 1) (current_structural s1) j 1"
  using assms by (simp add: scope_ok_def bytes_between_empty)

lemma innermost_open:
  assumes "innermost s0 as 0" and "advance_char s0 = Some (c, s)" and "opener c"
    and "start_scope r s = Some (False, s1)"
    and "r = addr_array_continue \<or> r = addr_object_continue"
  shows "innermost s1 (current_structural s1 # as) 1"
proof -
  note adv = advance_char_Some [OF assms(2)]
  note c = advance_char_byte [OF assms(2)]
  from assms(1) have as: "as \<noteq> []" and d: "unat (depth s0) = length as + 1"
    "unat (depth s0) < max_depth s0" and m: "max_depth s0 < 2 ^ 32"
    by (simp_all add: innermost_def)
  from adv have f: "depth s = depth s0" "max_depth s = max_depth s0"
    "current_structural s = current_structural s0 + 1"
    by simp_all
  have d': "unat (depth s) < max_depth s" "max_depth s < 2 ^ 32" "unat (depth s) = length as + 1"
    using d m by (simp_all add: f)
  note e = start_scope_entry [OF assms(4) d'(1,2)]
  have same0: "same_scopes (length as) s0 s"
    by (rule advance_char_same [OF assms(2)])
  have same1: "same_scopes (length as) s s1"
    by (rule start_scope_same [OF assms(4)]) (simp add: d'(3))
  have b: "byte_at s1 = byte_at s0"
    using e adv by (intro byte_at_cong) simp_all
  have cur: "current_structural s1 = current_structural s0 + 1"
    using e f by simp
  have "opener (byte_at s1 (current_structural s1))"
    using assms(3) unfolding b cur c .
  moreover have "count (containing_scope s1 ! (length as + 1)) = 0"
    using e d'(3) by simp
  moreover have "ret_fits (length as + 1) (ret_address s1 ! (length as + 1))"
    using e d'(3) assms(5) as by (auto simp: ret_fits_def)
  ultimately have top: "scope_ok s1 (current_structural s1 + 1) (current_structural s1)
      (length as + 1) 1"
    by (rule fresh_scope)
  have "parents_ok s1 (current_structural s0 + 1) as"
    using innermost_parents [OF assms(1)]
    by (simp add: parents_ok_cong [OF same1] parents_ok_cong [OF same0])
  then have rest: "parents_ok s1 (current_structural s1) as"
    unfolding cur .
  from top rest e d'(2,3) show ?thesis
    by (simp add: innermost_def)
qed

lemma root_open:
  assumes "unat (depth s) = 1" and "unat (depth s) < max_depth s"
    and "current_char s = Some c" and "opener c"
    and "start_scope addr_finish s = Some (False, s1)"
    and "max_depth s < 2 ^ 32"
    and "count (containing_scope s ! 0) = 0"
  shows "innermost s1 [current_structural s1] 1"
proof -
  note c = current_char_byte [OF assms(3)]
  note e = start_scope_entry [OF assms(5,2,6)]
  have b: "byte_at s1 = byte_at s"
    using e by (intro byte_at_cong) simp_all
  have "opener (byte_at s1 (current_structural s1))"
    using assms(4) e unfolding b c by simp
  moreover have "count (containing_scope s1 ! 1) = 0"
    using e assms(1) by simp
  moreover have "ret_fits 1 (ret_address s1 ! 1)"
    using e assms(1) by (simp add: ret_fits_def)
  ultimately have top: "scope_ok s1 (current_structural s1 + 1) (current_structural s1) 1 1"
    by (rule fresh_scope)
  have "same_scopes 0 s s1"
    by (rule start_scope_same [OF assms(5)]) (simp add: assms(1))
  with assms(7) have "count (containing_scope s1 ! 0) = 0"
    by (simp add: same_scopes_def)
  with top e assms(1,6) show ?thesis
    by (simp add: innermost_def)
qed

lemma scope_ok_block:
  assumes "scope_ok s a a' j 0" and "a < e" and "opener (byte_at s a)"
    and "scan 0 0 (bytes_between s (a + 1) e) = Some (0, n)" and "closer (byte_at s e)"
  shows "scope_ok s (e + 1) a' j 0"
proof -
  from assms(1) obtain n' where lt: "a' < a" and o: "opener (byte_at s a')"
    and sc: "scan 0 0 (bytes_between s (a' + 1) a) = Some (0, n')"
    and c: "count (containing_scope s ! j) + 0 = of_nat (n' + 1)"
    and r: "ret_fits j (ret_address s ! j)"
    by (auto simp: scope_ok_def)
  have 1: "bytes_between s (a' + 1) (e + 1) = bytes_between s (a' + 1) a @ bytes_between s a (e + 1)"
    using lt assms(2) by (intro bytes_between_split) simp_all
  have 2: "bytes_between s a (e + 1) = byte_at s a # bytes_between s (a + 1) (e + 1)"
    using assms(2) by (intro bytes_between_cons) simp
  have 3: "bytes_between s (a + 1) (e + 1) = bytes_between s (a + 1) e @ [byte_at s e]"
    using assms(2) by (intro bytes_between_snoc) simp
  have "scan 0 0 (bytes_between s (a' + 1) (e + 1)) = Some (0, n')"
    unfolding 1 2 3 by (rule scan_block [OF sc assms(3,5,4)])
  with lt assms(2) o c r show ?thesis
    unfolding scope_ok_def by (intro conjI exI [of _ n']) simp_all
qed

lemma end_scope_same: "end_scope ext st en s = Some s' \<Longrightarrow> same_scopes k s s'"
  by (frule end_scope_frame, drule end_scope_Some) (simp add: same_scopes_def frame_def)

lemma unat_count:
  fixes c :: "32 word"
  shows "c = of_nat m \<Longrightarrow> (if unat c < 2 ^ 24 then unat c else 0xFFFFFF) = saturated m"
  by (simp add: saturated_def unat_of_nat)

lemma innermost_close:
  assumes "innermost s as d"
    and "d = 1 \<and> hd as = current_structural s \<or> d = 0 \<and> hd as < current_structural s"
    and "advance_char s = Some (c, s1)" and "closer c"
    and "end_scope ext st en s1 = Some s2"
  shows "just_closed s2 (tl as) \<and> closes s2"
proof -
  define a where "a = hd as"
  define e where "e = current_structural s + 1"
  note adv = advance_char_Some [OF assms(3)]
  note c = advance_char_byte [OF assms(3)]
  note es = end_scope_Some [OF assms(5)]
  note fr = end_scope_frame [OF assms(5)]
  from assms(1) have as: "as \<noteq> []" and dp: "unat (depth s) = length as + 1"
    "unat (depth s) < max_depth s" "max_depth s < 2 ^ 32"
    and top: "scope_ok s e a (length as) d"
    and rest: "parents_ok s a (tl as)"
    by (simp_all add: innermost_def a_def e_def)
  from top obtain n where ae: "a < e" and o: "opener (byte_at s a)"
    and sc: "scan 0 0 (bytes_between s (a + 1) e) = Some (0, n)"
    and cnt: "count (containing_scope s ! length as) + d = of_nat (n + 1)"
    and rf: "ret_fits (length as) (ret_address s ! length as)"
    by (auto simp: scope_ok_def)
  have cl: "closer (byte_at s e)"
    using assms(4) unfolding c e_def .
  have same: "same_scopes k s s2" for k
  proof -
    from advance_char_same [OF assms(3), of k] end_scope_same [OF assms(5), of k]
    show ?thesis by (simp add: same_scopes_def)
  qed
  have b: "byte_at s2 = byte_at s"
    using same [of 0] by (intro byte_at_cong) (simp_all add: same_scopes_def)
  have bb: "bytes_between s2 x y = bytes_between s x y" for x y
    using same [of 0] by (intro bytes_between_cong) (simp_all add: same_scopes_def)
  have f: "current_structural s2 = e" "max_depth s2 = max_depth s"
    "depth s2 = depth s - 1" "containing_scope s2 = containing_scope s"
    "ret_address s2 = ret_address s" "depth s1 = depth s"
    "containing_scope s1 = containing_scope s"
    using adv es fr by (simp_all add: frame_def e_def)
  have u: "unat (depth s2) = length as" "unat (depth s - 1) = length as"
    using dp by (simp_all add: f unat_depth_pred)
  have l: "length (tl as) + 1 = length as"
    using as by simp
  have p: "parents_ok s2 (current_structural s2 + 1) (tl as)"
  proof (cases "tl as")
    case Nil
    with rest show ?thesis by (simp add: f(4))
  next
    case (Cons a' r)
    with rest have 1: "scope_ok s a a' (length r + 1) 0" and 2: "parents_ok s a' r"
      by simp_all
    from scope_ok_block [OF 1 ae o sc cl] 2 Cons show ?thesis
      by (simp add: f(1) scope_ok_cong [OF same order_refl] parents_ok_cong [OF same order_refl])
  qed
  have h: "hd (tl as) < current_structural s2" if "tl as \<noteq> []"
  proof -
    from that obtain a' r where t: "tl as = a' # r" by (cases "tl as") auto
    with rest have "a' < a" by (simp add: scope_ok_def)
    with ae t show ?thesis by (simp add: f(1))
  qed
  have jc: "just_closed s2 (tl as)"
    unfolding just_closed_def l
    using u(1) dp p h rf by (simp add: f(2,5))
  have m: "\<exists>m. children (bytes_between s (a + 1) e) = Some m \<and>
      count (containing_scope s ! length as) = of_nat m"
  proof (cases "d = 1 \<and> hd as = current_structural s")
    case True
    then have "bytes_between s (a + 1) e = []"
      by (simp add: a_def e_def bytes_between_empty)
    moreover from this sc have "n = 0" by simp
    with cnt True have "count (containing_scope s ! length as) = 0" by simp
    ultimately show ?thesis
      by (simp add: children_def)
  next
    case False
    with assms(2) have d: "d = 0" and "a < current_structural s"
      by (auto simp: a_def)
    then have "bytes_between s (a + 1) e \<noteq> []"
      by (simp add: bytes_between_Nil e_def)
    with sc cnt d show ?thesis
      by (simp add: children_def)
  qed
  then obtain m where ch: "children (bytes_between s (a + 1) e) = Some m"
    and cm: "count (containing_scope s ! length as) = of_nat m"
    by blast
  have "stored_count s2 =
      unat (take_bit 24 (drop_bit 32
        (tape s2 ! unat (tape_index (containing_scope s1 ! unat (depth s1 - 1))))))"
    by (simp add: stored_count_def f)
  also have "\<dots> = (if unat (count (containing_scope s1 ! unat (depth s1 - 1))) < 2 ^ 24
      then unat (count (containing_scope s1 ! unat (depth s1 - 1))) else 0xFFFFFF)"
    by (rule end_scope_count_bits [OF assms(5)])
  also have "\<dots> = saturated m"
    unfolding f(6,7) u(2) by (rule unat_count [OF cm])
  finally have st: "stored_count s2 = saturated m" .
  have "closes s2"
    unfolding closes_def f(1) b bb
    using ae o cl ch st by blast
  with jc show ?thesis ..
qed

text \<open>The invariant at each label.\<close>

fun linv :: "label \<Rightarrow> parser_state \<Rightarrow> bool" where
  "linv Document_begin s =
     (unat (depth s) = 1 \<and> unat (depth s) < max_depth s \<and> max_depth s < 2 ^ 32 \<and>
      count (containing_scope s ! 0) = 0)"
| "linv Object_begin s = (\<exists>as. innermost s as 1 \<and> hd as = current_structural s)"
| "linv Array_begin s = (\<exists>as. innermost s as 1 \<and> hd as = current_structural s)"
| "linv Main_array_switch s = (\<exists>as. innermost s as 0)"
| "linv Object_key_state s = (\<exists>as. innermost s as 0 \<and> hd as < current_structural s)"
| "linv Object_continue s = (\<exists>as. innermost s as 0 \<and> hd as < current_structural s)"
| "linv Array_continue s = (\<exists>as. innermost s as 0 \<and> hd as < current_structural s)"
| "linv Scope_end s = ((\<exists>as. just_closed s as) \<and> closes s)"
| "linv Finish s = (unat (depth s) = 1 \<and> count (containing_scope s ! 0) = 0)"
| "linv Error s = True"

lemma scope_end_continue:
  assumes "just_closed s as" and "rd (ret_address s) (unat (depth s)) = Some r"
  shows "linv (continue_at r) s"
proof -
  from assms(1) have d: "unat (depth s) = length as + 1" "unat (depth s) < max_depth s"
      "max_depth s < 2 ^ 32"
    and p: "parents_ok s (current_structural s + 1) as"
    and h: "as \<noteq> [] \<longrightarrow> hd as < current_structural s"
    and rf: "ret_fits (length as + 1) (ret_address s ! (length as + 1))"
    by (simp_all add: just_closed_def)
  from assms(2) d(1) have r: "r = ret_address s ! (length as + 1)"
    by (auto simp: rd_def split: if_splits)
  show ?thesis
  proof (cases "as = []")
    case True
    with rf r have "r = addr_finish" by (simp add: ret_fits_def)
    with True d(1) p show ?thesis by (simp add: continue_at_def addr_finish_def)
  next
    case False
    with rf r have "r = addr_array_continue \<or> r = addr_object_continue"
      by (simp add: ret_fits_def)
    moreover from parents_innermost [OF p False d] h False
    have "\<exists>as. innermost s as 0 \<and> hd as < current_structural s"
      by blast
    ultimately show ?thesis
      by (auto simp: continue_at_def addr_array_continue_def addr_object_continue_def)
  qed
qed

lemma plain_bytes:
  "c = 0x22 \<or> c = 0x74 \<or> c = 0x66 \<or> c = 0x6E \<or> c = 0x3A \<or> is_number_start c \<Longrightarrow>
     \<not> opener c \<and> \<not> closer c \<and> c \<noteq> 0x2C"
  by (auto simp: opener_def closer_def is_number_start_def)

lemma gotos_parse_value_bytes:
  assumes "P Error s"
    and "\<And>s'. \<not> opener c \<Longrightarrow> \<not> closer c \<Longrightarrow> c \<noteq> 0x2C \<Longrightarrow> appends s s' \<Longrightarrow>
           P Error s' \<and> P k s'"
    and "\<And>s'. start_scope a s = Some (True, s') \<Longrightarrow> P Error s'"
    and "\<And>s'. opener c \<Longrightarrow> start_scope a s = Some (False, s') \<Longrightarrow>
           P Object_begin s' \<and> P Array_begin s'"
  shows "gotos P (parse_value ext a k c s)"
proof -
  have scalar: "P Error s'" "P k s'"
    if "c = 0x22 \<or> c = 0x74 \<or> c = 0x66 \<or> c = 0x6E \<or> c = 0x3A \<or> is_number_start c"
      and "appends s s'" for s'
    using plain_bytes [OF that(1)] that(2) assms(2) by blast+
  have opened: "P Object_begin s'" "P Array_begin s'"
    if "c = 0x7B \<or> c = 0x5B" and "start_scope a s = Some (False, s')" for s'
    using that assms(4) by (auto simp: opener_def)
  show ?thesis
    unfolding parse_value_def start_object_def start_array_def
    by (intro gotos_intros)
      (auto dest!: handlers_append dest: assms(3) intro: assms(1) scalar opened)
qed

lemma scalar_value:
  assumes "innermost s as 0" and "advance_char s = Some (c, s1)"
    and "\<not> opener c" and "\<not> closer c" and "c \<noteq> 0x2C" and "appends s1 s2"
  shows "innermost s2 as 0 \<and> hd as < current_structural s2"
proof -
  from innermost_advance [OF assms(1,2,3,4)] assms(5)
  have "innermost s1 as 0" "hd as < current_structural s1" by simp_all
  with innermost_appends [OF _ assms(6)] show ?thesis by simp
qed

lemma fresh_key:
  assumes "innermost s as 1" and "advance_char s = Some (0x22, s1)"
    and "increment_count s1 = Some s2" and "parse_string ext s2 = Some (b, s3)"
  shows "innermost s3 as 0 \<and> hd as < current_structural s3"
proof -
  from innermost_advance [OF assms(1,2)]
  have 1: "innermost s1 as 1" "hd as < current_structural s1"
    by (simp_all add: opener_def closer_def)
  from innermost_increment [OF 1(1) assms(3)]
  have 2: "innermost s2 as 0" "current_structural s2 = current_structural s1" by simp_all
  from innermost_appends [OF 2(1) parse_string_appends [OF assms(4)]] 1(2) 2(2)
  show ?thesis by simp
qed

lemma next_element:
  assumes "innermost s as 0" and "advance_char s = Some (0x2C, s1)"
    and "increment_count s1 = Some s2"
  shows "innermost s2 as 0"
proof -
  from innermost_advance [OF assms(1,2)]
  have "innermost s1 as 1"
    by (simp add: opener_def closer_def)
  from innermost_increment [OF this assms(3)] show ?thesis by simp
qed

lemma next_key:
  assumes "innermost s as 0" and "advance_char s = Some (0x2C, s1)"
    and "increment_count s1 = Some s2" and "advance_char s2 = Some (0x22, s3)"
    and "parse_string ext s3 = Some (b, s4)"
  shows "innermost s4 as 0 \<and> hd as < current_structural s4"
proof -
  note 2 = next_element [OF assms(1,2,3)]
  from scalar_value [OF 2 assms(4) _ _ _ parse_string_appends [OF assms(5)]]
  show ?thesis by (simp add: opener_def closer_def)
qed

lemma after_colon:
  assumes "innermost s as 0" and "advance_char s = Some (0x3A, s1)"
  shows "innermost s1 as 0"
  using innermost_advance [OF assms] by (simp add: opener_def closer_def)

lemma close_linv:
  assumes "innermost s as d"
    and "d = 1 \<and> hd as = current_structural s \<or> d = 0 \<and> hd as < current_structural s"
    and "advance_char s = Some (c, s1)" and "closer c"
    and "end_scope ext st en s1 = Some s2"
  shows "\<exists>as. just_closed s2 as" and "closes s2"
  using innermost_close [OF assms] by auto

lemma open_linv:
  assumes "innermost s0 as 0" and "advance_char s0 = Some (c, s)" and "opener c"
    and "start_scope r s = Some (False, s1)"
    and "r = addr_array_continue \<or> r = addr_object_continue"
  shows "linv Object_begin s1 \<and> linv Array_begin s1"
  using innermost_open [OF assms] by auto

lemma root_open_linv:
  assumes "linv Document_begin s" and "current_char s = Some c" and "opener c"
    and "start_scope addr_finish s = Some (False, s1)"
  shows "linv Object_begin s1 \<and> linv Array_begin s1"
proof -
  from assms(1) have "unat (depth s) = 1" "unat (depth s) < max_depth s" "max_depth s < 2 ^ 32"
    "count (containing_scope s ! 0) = 0"
    by simp_all
  from root_open [OF this(1,2) assms(2,3,4) this(3,4)] show ?thesis by auto
qed

lemma root_scalar_linv:
  assumes "linv Document_begin s" and "appends s s'"
  shows "linv Finish s'"
  using assms by (simp add: appends_def)

lemma step_linv_Document_begin:
  assumes "linv Document_begin s"
  shows "gotos linv (step ext streaming Document_begin s)"
proof -
  have fin: "unat (depth s') = Suc 0 \<and> count (containing_scope s' ! 0) = 0"
    if "appends s s'" for s'
    using root_scalar_linv [OF assms that] by simp
  show ?thesis
    unfolding step.simps start_object_def start_array_def
    by (intro gotos_intros)
      (auto dest!: handlers_append dest: root_open_linv [OF assms] fin simp: opener_def)
qed

lemma step_linv_Object_begin:
  assumes "linv Object_begin s"
  shows "gotos linv (step ext streaming Object_begin s)"
proof -
  from assms obtain as where i: "innermost s as 1" "hd as = current_structural s"
    by auto
  show ?thesis
    unfolding step.simps end_object_def
    by (intro gotos_intros)
      (auto dest: fresh_key [OF i(1)] intro: close_linv [OF i(1)] simp: i(2) closer_def)
qed

lemma step_linv_Object_key_state:
  assumes "linv Object_key_state s"
  shows "gotos linv (step ext streaming Object_key_state s)"
proof -
  from assms obtain as where i: "innermost s as 0" "hd as < current_structural s"
    by auto
  show ?thesis
    unfolding step.simps
    by (intro gotos_intros gotos_parse_value_bytes)
      (auto dest: scalar_value [OF after_colon [OF i(1)]] open_linv [OF after_colon [OF i(1)]]
        simp: addr_object_continue_def addr_array_continue_def)
qed

lemma step_linv_Object_continue:
  assumes "linv Object_continue s"
  shows "gotos linv (step ext streaming Object_continue s)"
proof -
  from assms obtain as where i: "innermost s as 0" "hd as < current_structural s"
    by auto
  show ?thesis
    unfolding step.simps end_object_def
    by (intro gotos_intros)
      (auto dest: next_key [OF i(1)] intro: close_linv [OF i(1)] simp: i(2) closer_def)
qed

lemma step_linv_Scope_end:
  assumes "linv Scope_end s"
  shows "gotos linv (step ext streaming Scope_end s)"
proof -
  from assms obtain as where i: "just_closed s as"
    by auto
  show ?thesis
    unfolding step.simps
    by (intro gotos_intros) (rule scope_end_continue [OF i])
qed

lemma step_linv_Array_begin:
  assumes "linv Array_begin s"
  shows "gotos linv (step ext streaming Array_begin s)"
proof -
  from assms obtain as where i: "innermost s as 1" "hd as = current_structural s"
    by auto
  have c: "closer c" if "peek_next_char s = Some 0x5D" "advance_char s = Some (c, s1)" for c s1
    using peek_next_char_byte [OF that(1)] advance_char_byte [OF that(2)]
    by (simp add: closer_def)
  show ?thesis
    unfolding step.simps end_array_def
    by (intro gotos_intros)
      (auto dest: innermost_increment [OF i(1)] c intro: close_linv [OF i(1)] simp: i(2))
qed

lemma step_linv_Main_array_switch:
  assumes "linv Main_array_switch s"
  shows "gotos linv (step ext streaming Main_array_switch s)"
proof -
  from assms obtain as where i: "innermost s as 0"
    by auto
  show ?thesis
    unfolding step.simps
    by (intro gotos_intros gotos_parse_value_bytes)
      (auto dest: scalar_value [OF i] open_linv [OF i]
        simp: addr_object_continue_def addr_array_continue_def)
qed

lemma step_linv_Array_continue:
  assumes "linv Array_continue s"
  shows "gotos linv (step ext streaming Array_continue s)"
proof -
  from assms obtain as where i: "innermost s as 0" "hd as < current_structural s"
    by auto
  show ?thesis
    unfolding step.simps end_array_def
    by (intro gotos_intros)
      (auto dest: next_element [OF i(1)] intro: close_linv [OF i(1)] simp: i(2) closer_def)
qed

lemma step_linv:
  assumes "linv l s"
  shows "gotos linv (step ext streaming l s)"
proof (cases l)
  case Document_begin
  with assms show ?thesis by (simp only: step_linv_Document_begin)
next
  case Object_begin
  with assms show ?thesis by (simp only: step_linv_Object_begin)
next
  case Object_key_state
  with assms show ?thesis by (simp only: step_linv_Object_key_state)
next
  case Object_continue
  with assms show ?thesis by (simp only: step_linv_Object_continue)
next
  case Scope_end
  with assms show ?thesis by (simp only: step_linv_Scope_end)
next
  case Array_begin
  with assms show ?thesis by (simp only: step_linv_Array_begin)
next
  case Main_array_switch
  with assms show ?thesis by (simp only: step_linv_Main_array_switch)
next
  case Array_continue
  with assms show ?thesis by (simp only: step_linv_Array_continue)
next
  case Finish
  show ?thesis unfolding Finish step.simps by (intro gotos_intros)
next
  case Error
  show ?thesis unfolding Error step.simps by (intro gotos_intros)
qed

lemma steps_linv:
  "steps ext streaming k l s = Some (l', s') \<Longrightarrow> linv l s \<Longrightarrow> linv l' s'"
proof (induction k arbitrary: l s)
  case 0
  then show ?case by simp
next
  case (Suc k)
  from Suc.prems(1) obtain l1 s1 where
    st: "step ext streaming l s = Some (Goto l1 s1)"
    and r: "steps ext streaming k l1 s1 = Some (l', s')"
    by (auto split: option.splits outcome.splits)
  from gotosD [OF step_linv [OF Suc.prems(2)] st] have "linv l1 s1" .
  from Suc.IH [OF r this] show ?case .
qed

lemma start_linv:
  assumes "start addr_finish s = Some (SUCCESS, s1)" and "depth s = 0"
    and "max_depth s < 2 ^ 32"
  shows "linv Document_begin s1"
proof -
  from start_Some [OF assms(1)] have ss: "start_scope addr_finish (s\<lparr>error := UNINITIALIZED\<rparr>)
      = Some (False, s1)"
    by auto
  from start_scope_Some [OF ss] assms(2,3) show ?thesis
    by simp
qed

lemma finish_root_count:
  assumes "linv Finish s" and "finish ext s = Some (e, s')"
  shows "stored_count s' = 0"
proof -
  from assms(1) have d: "unat (depth s) = 1" and c: "count (containing_scope s ! 0) = 0"
    by simp_all
  from finish_Some [OF assms(2)] obtain s1 where
    es: "end_scope ext ROOT ROOT s = Some s1"
    and s': "tape s' = tape s1" "containing_scope s' = containing_scope s1" "depth s' = depth s1"
    by auto
  note f = end_scope_Some [OF es]
  from d have u: "unat (depth s - 1) = 0"
    by (simp add: unat_depth_pred)
  have "stored_count s' =
      unat (take_bit 24 (drop_bit 32
        (tape s1 ! unat (tape_index (containing_scope s ! unat (depth s - 1))))))"
    using f by (simp add: stored_count_def s')
  also have "\<dots> = (if unat (count (containing_scope s ! unat (depth s - 1))) < 2 ^ 24
      then unat (count (containing_scope s ! unat (depth s - 1))) else 0xFFFFFF)"
    by (rule end_scope_count_bits [OF es])
  also have "\<dots> = 0"
    by (simp add: u c)
  finally show ?thesis .
qed

lemma steps_input:
  "steps ext streaming k l s = Some (l', s') \<Longrightarrow>
     buf s' = buf s \<and> structural_indexes s' = structural_indexes s"
proof (induction k arbitrary: l s)
  case 0
  then show ?case by simp
next
  case (Suc k)
  from Suc.prems(1) obtain l1 s1 where
    st: "step ext streaming l s = Some (Goto l1 s1)"
    and r: "steps ext streaming k l1 s1 = Some (l', s')"
    by (auto split: option.splits outcome.splits)
  from progress_fields [OF step_Goto_progress [OF st]] Suc.IH [OF r] show ?case
    by simp
qed

lemma reached_linv:
  assumes "reached ext streaming p k = Some (l, s)" and "max_depth p < 2 ^ 32"
  shows "linv l s \<and> buf s = buf p \<and> structural_indexes s = structural_indexes p"
proof -
  define p0 where "p0 = structural_parser p (if streaming then unat (next_structural_index p) else 0)"
  from assms(1) obtain p1 where st: "start addr_finish p0 = Some (SUCCESS, p1)"
    and r: "steps ext streaming k Document_begin p1 = Some (l, s)"
    by (auto simp: reached_def p0_def Let_def split: Option.bind_splits if_splits)
  have f: "depth p0 = 0" "max_depth p0 < 2 ^ 32" "buf p0 = buf p"
    "structural_indexes p0 = structural_indexes p"
    using assms(2) by (simp_all add: p0_def structural_parser_def)
  from start_Some [OF st] have "start_scope addr_finish (p0\<lparr>error := UNINITIALIZED\<rparr>)
      = Some (False, p1)"
    by auto
  from start_scope_frame [OF this] have "buf p1 = buf p0" "structural_indexes p1 = structural_indexes p0"
    by (simp_all add: frame_def)
  with steps_linv [OF r start_linv [OF st f(1,2)]] steps_input [OF r] f(3,4)
  show ?thesis by simp
qed

text \<open>
  C3, as the code has it. When a pass of the machine closes an object or an array, the
  structural bytes between the opening bracket and the closing one are well nested, and
  the count stored in bits 32 to 55 of the opener is the number of their top-level
  children as a counter of 32 bits holds it: that number when it is below \<open>2 ^ 24\<close>,
  \<open>0xFFFFFF\<close> otherwise. The root scope is not counted: the opener that
  \<^verbatim>\<open>finish\<close> writes for it has the count 0.
\<close>

theorem child_count_saturates:
  assumes "reached ext streaming p k = Some (l, s)"
    and "max_depth p < 2 ^ 32"
  shows "(step ext streaming l s = Some (Goto Scope_end s') \<longrightarrow>
      (\<exists>a m. a < current_structural s' \<and> opener (byte_at p a) \<and>
         closer (byte_at p (current_structural s')) \<and>
         children (bytes_between p (a + 1) (current_structural s')) = Some m \<and>
         stored_count s' = (if m mod 2 ^ 32 < 2 ^ 24 then m mod 2 ^ 32 else 0xFFFFFF))) \<and>
     (l = Finish \<longrightarrow> finish ext s = Some (e, sf) \<longrightarrow> stored_count sf = 0)"
proof (intro conjI impI)
  from reached_linv [OF assms] have i: "linv l s"
    and b: "buf s = buf p" "structural_indexes s = structural_indexes p"
    by simp_all
  {
    assume st: "step ext streaming l s = Some (Goto Scope_end s')"
    from gotosD [OF step_linv [OF i] st] have "closes s'"
      by simp
    moreover from progress_fields [OF step_Goto_progress [OF st]] b
    have b': "buf s' = buf p" "structural_indexes s' = structural_indexes p"
      by simp_all
    note byte_at_cong [OF b'] bytes_between_cong [OF b']
    ultimately show "\<exists>a m. a < current_structural s' \<and> opener (byte_at p a) \<and>
         closer (byte_at p (current_structural s')) \<and>
         children (bytes_between p (a + 1) (current_structural s')) = Some m \<and>
         stored_count s' = (if m mod 2 ^ 32 < 2 ^ 24 then m mod 2 ^ 32 else 0xFFFFFF)"
      by (simp add: closes_def saturated_def)
  }
  {
    assume "l = Finish" and "finish ext s = Some (e, sf)"
    with i show "stored_count sf = 0"
      by (simp only: finish_root_count)
  }
qed

text \<open>The document \<^verbatim>\<open>[1,2,3]\<close>.\<close>

definition counted_array_doc :: parser_state where
  "counted_array_doc = example_parser [0x5B, 0x31, 0x2C, 0x32, 0x2C, 0x33, 0x5D, 0x20, 0x20] 7
     [0, 1, 2, 3, 4, 5, 6, 7, 0] 7 3 12 8"

text \<open>Where a pass of the machine goes, with the cursor and the count stored.\<close>

definition closing :: "outcome \<Rightarrow> (label \<times> nat \<times> nat) option" where
  "closing out =
     (case out of Goto l s \<Rightarrow> Some (l, current_structural s, stored_count s)
      | Return e s \<Rightarrow> None)"

lemma counted_array_doc_closes:
  "map_option (\<lambda>(l, s). (l, map_option closing (step example_externals False l s)))
     (reached example_externals False counted_array_doc 7)
   = Some (Array_continue, Some (Some (Scope_end, 6, 3)))"
  by code_simp

lemma counted_array_doc_children:
  "children (bytes_between counted_array_doc 1 6) = Some 3"
  by code_simp

lemma counted_array_doc_finish:
  "map_option (\<lambda>(l, s). (l, map_option fst (finish example_externals s)))
     (reached example_externals False counted_array_doc 9)
   = Some (Finish, Some SUCCESS)"
  by code_simp

theorem child_count_saturates_witness:
  "(\<exists>s s'. reached example_externals False counted_array_doc 7 = Some (Array_continue, s) \<and>
     step example_externals False Array_continue s = Some (Goto Scope_end s') \<and>
     max_depth counted_array_doc < 2 ^ 32 \<and>
     current_structural s' = 6 \<and> stored_count s' = 3 \<and>
     children (bytes_between counted_array_doc 1 6) = Some 3 \<and>
     (\<exists>a m. a < 6 \<and> opener (byte_at counted_array_doc a) \<and>
        children (bytes_between counted_array_doc (a + 1) 6) = Some m \<and>
        3 = (if m mod 2 ^ 32 < 2 ^ 24 then m mod 2 ^ 32 else 0xFFFFFF))) \<and>
   (\<exists>s sf. reached example_externals False counted_array_doc 9 = Some (Finish, s) \<and>
     finish example_externals s = Some (SUCCESS, sf) \<and> stored_count sf = 0)"
proof -
  from counted_array_doc_closes obtain s out where
    re: "reached example_externals False counted_array_doc 7 = Some (Array_continue, s)"
    and out: "step example_externals False Array_continue s = Some out"
      "closing out = Some (Scope_end, 6, 3)"
    by (auto simp del: step.simps)
  from out(2) obtain s' where "out = Goto Scope_end s'"
    and c: "current_structural s' = 6" "stored_count s' = 3"
    by (cases out) (auto simp: closing_def)
  with out(1) have st: "step example_externals False Array_continue s = Some (Goto Scope_end s')"
    by simp
  have m: "max_depth counted_array_doc < 2 ^ 32"
    by (simp add: counted_array_doc_def example_parser_def)
  from child_count_saturates [OF re m, of s'] st
  have "\<exists>a m. a < 6 \<and> opener (byte_at counted_array_doc a) \<and>
        children (bytes_between counted_array_doc (a + 1) 6) = Some m \<and>
        3 = (if m mod 2 ^ 32 < 2 ^ 24 then m mod 2 ^ 32 else 0xFFFFFF)"
    unfolding c by blast
  with re st m c counted_array_doc_children have 1:
    "\<exists>s s'. reached example_externals False counted_array_doc 7 = Some (Array_continue, s) \<and>
     step example_externals False Array_continue s = Some (Goto Scope_end s') \<and>
     max_depth counted_array_doc < 2 ^ 32 \<and>
     current_structural s' = 6 \<and> stored_count s' = 3 \<and>
     children (bytes_between counted_array_doc 1 6) = Some 3 \<and>
     (\<exists>a m. a < 6 \<and> opener (byte_at counted_array_doc a) \<and>
        children (bytes_between counted_array_doc (a + 1) 6) = Some m \<and>
        3 = (if m mod 2 ^ 32 < 2 ^ 24 then m mod 2 ^ 32 else 0xFFFFFF))"
    by blast
  from counted_array_doc_finish obtain t tf where
    rf: "reached example_externals False counted_array_doc 9 = Some (Finish, t)"
    and fi: "finish example_externals t = Some (SUCCESS, tf)"
    by auto
  from child_count_saturates [OF rf m, of _ SUCCESS tf] fi have "stored_count tf = 0"
    by simp
  with rf fi have 2: "\<exists>s sf. reached example_externals False counted_array_doc 9 = Some (Finish, s) \<and>
     finish example_externals s = Some (SUCCESS, sf) \<and> stored_count sf = 0"
    by blast
  from 1 2 show ?thesis ..
qed

text \<open>
  The root scope of \<^verbatim>\<open>[1,2,3]\<close> has one child, the array, and the word
  \<^verbatim>\<open>finish\<close> writes for it at the start of the tape has the count 0.
\<close>

theorem root_count_counterexample:
  "children (structural_bytes counted_array_doc) = Some 1 \<and>
   map_option (\<lambda>(e, s). (e, ucast (drop_bit 56 (tape s ! 0)) = tag_code example_externals ROOT,
       unat (take_bit 24 (drop_bit 32 (tape s ! 0)))))
     (parse_structurals example_externals False counted_array_doc) = Some (SUCCESS, True, 0)"
  by code_simp

end
